theory Spec2Isabelle
  imports Complex_Main "HOL-Library.Sublist"
begin

section \<open>Identifier validation\<close>

text \<open>
  A Python \<open>str\<close> is modelled as a \<open>string\<close>, one \<open>char\<close> per code point. Code points
  above 255 are outside the model; the character class below rejects every character
  that is not ASCII, so the validity of such a string is \<open>False\<close> in the source as well.
\<close>

text \<open>The character class \<open>[A-Za-z0-9._]\<close> of the regular expression.\<close>

definition in_class :: "char \<Rightarrow> bool" where
  "in_class c =
     (let n = (of_char c :: nat)
      in (65 \<le> n \<and> n \<le> 90) \<or> (97 \<le> n \<and> n \<le> 122) \<or> (48 \<le> n \<and> n \<le> 57)
         \<or> c = CHR ''.'' \<or> c = CHR ''_'')"

text \<open>\<open>re.fullmatch(r'[...]+', s)\<close>: one or more characters of the class, and nothing else.\<close>

fun fullmatch_plus :: "(char \<Rightarrow> bool) \<Rightarrow> string \<Rightarrow> bool" where
  "fullmatch_plus cls [] = False"
| "fullmatch_plus cls [c] = cls c"
| "fullmatch_plus cls (c # cs) = (cls c \<and> fullmatch_plus cls cs)"

definition startswith :: "string \<Rightarrow> string \<Rightarrow> bool" where
  "startswith s p = (take (length p) s = p)"

definition endswith :: "string \<Rightarrow> string \<Rightarrow> bool" where
  "endswith s p = (length p \<le> length s \<and> drop (length s - length p) s = p)"

definition is_valid_instagram_username :: "string \<Rightarrow> bool" where
  "is_valid_instagram_username username =
     (if \<not> (1 \<le> length username \<and> length username \<le> 30) then False
      else if \<not> fullmatch_plus in_class username then False
      else if startswith username ''.'' \<or> endswith username ''.'' then False
      else True)"

text \<open>The alphabet of the class, written out.\<close>

definition alphabet :: "char set" where
  "alphabet = set ''ABCDEFGHIJKLMNOPQRSTUVWXYZabcdefghijklmnopqrstuvwxyz0123456789._''"

section \<open>Python values and exceptions\<close>

text \<open>
  The values \<open>json.loads\<close> produces. A float is a rational or one of the three special
  values the parser accepts (\<open>Infinity\<close>, \<open>-Infinity\<close>, \<open>NaN\<close>); the program only tests
  floats for zero and compares them with \<open>404\<close>. A \<open>dict\<close> is its list of items.
\<close>

datatype pyfloat = Finite rat | PosInf | NegInf | NaN

datatype pyval =
    PNone
  | PBool bool
  | PInt int
  | PFloat pyfloat
  | PStr string
  | PList "pyval list"
  | PDict "(string \<times> pyval) list"

text \<open>
  Exceptions, each with the text \<open>str(e)\<close> gives. \<open>ClientError\<close> is \<open>aiohttp.ClientError\<close>
  and \<open>TimeoutError\<close> is \<open>asyncio.TimeoutError\<close>; \<open>OtherError\<close> stands for every other
  exception a network call can raise (a body that is not JSON, for one).
\<close>

datatype exn =
    ClientError string
  | TimeoutError string
  | KeyError string
  | TypeError string
  | IndexError string
  | OtherError string

fun str_exn :: "exn \<Rightarrow> string" where
  "str_exn (ClientError m) = m"
| "str_exn (TimeoutError m) = m"
| "str_exn (KeyError m) = m"
| "str_exn (TypeError m) = m"
| "str_exn (IndexError m) = m"
| "str_exn (OtherError m) = m"

text \<open>Truth value of an object, as \<open>and\<close>, \<open>or\<close> and \<open>if\<close> test it.\<close>

fun truthy :: "pyval \<Rightarrow> bool" where
  "truthy PNone = False"
| "truthy (PBool b) = b"
| "truthy (PInt n) = (n \<noteq> 0)"
| "truthy (PFloat (Finite q)) = (q \<noteq> 0)"
| "truthy (PFloat _) = True"
| "truthy (PStr s) = (s \<noteq> [])"
| "truthy (PList xs) = (xs \<noteq> [])"
| "truthy (PDict kvs) = (kvs \<noteq> [])"

text \<open>\<open>a or b\<close>: the first operand when it is true, the second otherwise.\<close>

definition py_or :: "pyval \<Rightarrow> pyval \<Rightarrow> pyval" where
  "py_or a b = (if truthy a then a else b)"

text \<open>\<open>v == k\<close> for an integer literal \<open>k\<close>: numbers compare by value, \<open>True\<close> is \<open>1\<close>.\<close>

fun py_eq_int :: "pyval \<Rightarrow> int \<Rightarrow> bool" where
  "py_eq_int (PInt n) k = (n = k)"
| "py_eq_int (PBool b) k = ((if b then 1 else 0) = k)"
| "py_eq_int (PFloat (Finite q)) k = (q = of_int k)"
| "py_eq_int _ k = False"

fun isinstance_dict :: "pyval \<Rightarrow> bool" where
  "isinstance_dict (PDict kvs) = True"
| "isinstance_dict _ = False"

text \<open>\<open>key in d\<close> and \<open>d.get(key)\<close>; both are only reached behind \<open>isinstance(d, dict)\<close>.\<close>

fun py_in :: "string \<Rightarrow> pyval \<Rightarrow> bool" where
  "py_in k (PDict kvs) = (map_of kvs k \<noteq> None)"
| "py_in k _ = False"

fun py_get :: "pyval \<Rightarrow> string \<Rightarrow> pyval" where
  "py_get (PDict kvs) k = (case map_of kvs k of None \<Rightarrow> PNone | Some v \<Rightarrow> v)"
| "py_get _ k = PNone"

definition not_subscriptable :: "string \<Rightarrow> exn" where
  "not_subscriptable ty = TypeError ([CHR 0x27] @ ty @ [CHR 0x27] @ '' object is not subscriptable'')"

text \<open>\<open>v[0]\<close>. The keys of a parsed JSON object are strings, so \<open>0\<close> is never one of them.\<close>

fun getitem0 :: "pyval \<Rightarrow> exn + pyval" where
  "getitem0 (PList []) = Inl (IndexError ''list index out of range'')"
| "getitem0 (PList (x # xs)) = Inr x"
| "getitem0 (PStr []) = Inl (IndexError ''string index out of range'')"
| "getitem0 (PStr (c # cs)) = Inr (PStr [c])"
| "getitem0 (PDict kvs) = Inl (KeyError ''0'')"
| "getitem0 PNone = Inl (not_subscriptable ''NoneType'')"
| "getitem0 (PBool b) = Inl (not_subscriptable ''bool'')"
| "getitem0 (PInt n) = Inl (not_subscriptable ''int'')"
| "getitem0 (PFloat x) = Inl (not_subscriptable ''float'')"

section \<open>The two transports\<close>

text \<open>
  What the network does with one call: the call raises, or a response arrives, with its
  HTTP status and (for the relay API) the parsed JSON body.
\<close>

datatype reply = Raise exn | Response int pyval

datatype client =
    OxylabsClient string string int
  | DirectClient int

text \<open>
  \<open>OxylabsClient.fetch_status_code\<close>, from the parsed body \<open>data\<close> on: the pair
  \<open>(status_code, result)\<close>, or the exception the subscript raises.
\<close>

definition oxylabs_result :: "pyval \<Rightarrow> exn + pyval" where
  "oxylabs_result data =
     (if isinstance_dict data \<and> py_in ''results'' data \<and> truthy (py_get data ''results'')
      then getitem0 (py_get data ''results'')
      else Inr data)"

definition oxylabs_status_code :: "pyval \<Rightarrow> pyval" where
  "oxylabs_status_code result =
     (if isinstance_dict result
      then py_or (py_get result ''status_code'') (py_get result ''status'')
      else PNone)"

fun fetch_status_code :: "client \<Rightarrow> reply \<Rightarrow> exn + (pyval \<times> pyval)" where
  "fetch_status_code cl (Raise e) = Inl e"
| "fetch_status_code (OxylabsClient u p t) (Response st data) =
     (case oxylabs_result data of
        Inl e \<Rightarrow> Inl e
      | Inr result \<Rightarrow> Inr (oxylabs_status_code result, result))"
| "fetch_status_code (DirectClient t) (Response st body) = Inr (PInt st, PNone)"

section \<open>Reports and effects\<close>

text \<open>
  Every \<open>print\<close> of the program is one \<open>report\<close>; \<open>render\<close> gives its text. The two
  parameters of \<open>render\<close> are Python's \<open>str\<close> and \<open>repr\<close> on values, which the f-strings
  apply to \<open>status_code\<close> and \<open>len(skipped)\<close>, and to \<open>raw\<close>.
\<close>

datatype report =
    InputNotFound string
  | Skipping nat
  | NoValid
  | UsingOxylabs
  | FallbackDirect
  | Available string
  | UnknownStatus string pyval
  | Unavailable string pyval
  | ErrorLine string exn

fun render :: "(pyval \<Rightarrow> string) \<Rightarrow> (pyval \<Rightarrow> string) \<Rightarrow> report \<Rightarrow> string" where
  "render str repr (InputNotFound path) = ''[ERROR] Input file not found: '' @ path"
| "render str repr (Skipping n) = ''[i] Skipping '' @ str (PInt (int n)) @ '' invalid usernames''"
| "render str repr NoValid = ''[i] No valid usernames to check.''"
| "render str repr UsingOxylabs = ''[i] Using Oxylabs Real-Time Crawler API''"
| "render str repr FallbackDirect =
     ''[i] Oxylabs credentials not provided. Falling back to direct requests (may be inaccurate).''"
| "render str repr (Available url) =
     [CHR 0x1B] @ ''[32;1m[AVAILABLE]'' @ [CHR 0x1B] @ ''[0m '' @ url"
| "render str repr (UnknownStatus username raw) =
     ''[!] Unknown status for '' @ username @ '', response malformed: '' @ repr raw"
| "render str repr (Unavailable url status_code) =
     [CHR 0x1B] @ ''[31;1m[UNAVAILABLE]'' @ [CHR 0x1B] @ ''[0m '' @ url
       @ '' (status='' @ str status_code @ '')''"
| "render str repr (ErrorLine username e) = ''[ERROR] '' @ username @ '': '' @ str_exn e"

text \<open>
  What one check task does, in program order. \<open>Acquire\<close> and \<open>Release\<close> are the entry and
  exit of \<open>async with self.sem\<close>; \<open>Call\<close> is the request going out and \<open>Outcome\<close> the
  awaited call coming back, with its value or its exception; \<open>WriteFile arg path\<close> is
  \<open>write_file(arg, path)\<close>.
\<close>

datatype effect =
    Acquire
  | Call client string
  | Outcome "exn + pyval \<times> pyval"
  | Release
  | Sleep int
  | Print report
  | WriteFile string string

text \<open>\<open>write_file\<close>: the file's content after the append.\<close>

definition write_file :: "string \<Rightarrow> string \<Rightarrow> string" where
  "write_file arg content = content @ arg @ [CHR 0x0A]"

section \<open>The checker\<close>

record checker =
  to_check :: "string list"
  sem :: int
  retries :: int
  output_path :: string
  oxy_user :: "string option"
  oxy_pass :: "string option"
  request_timeout :: int

text \<open>\<open>Checker.__init__\<close>; \<open>sem\<close> is the initial value of the semaphore.\<close>

definition Checker ::
  "string list \<Rightarrow> string option \<Rightarrow> string option \<Rightarrow> int \<Rightarrow> int \<Rightarrow> string \<Rightarrow> int \<Rightarrow> checker" where
  "Checker usernames oxylabs_username oxylabs_password concurrency n_retries path timeout =
     \<lparr>to_check = usernames,
      sem = max 1 concurrency,
      retries = max 0 n_retries,
      output_path = path,
      oxy_user = oxylabs_username,
      oxy_pass = oxylabs_password,
      request_timeout = timeout\<rparr>"

definition profile_url :: "string \<Rightarrow> string" where
  "profile_url username = ''https://www.instagram.com/'' @ username @ ''/''"

text \<open>The clause \<open>except (aiohttp.ClientError, asyncio.TimeoutError)\<close>.\<close>

fun retryable :: "exn \<Rightarrow> bool" where
  "retryable (ClientError m) = True"
| "retryable (TimeoutError m) = True"
| "retryable _ = False"

text \<open>The \<open>if\<close>/\<open>elif\<close>/\<open>else\<close> of \<open>_check_one\<close> on the status that came back.\<close>

definition on_status :: "checker \<Rightarrow> string \<Rightarrow> pyval \<Rightarrow> pyval \<Rightarrow> effect list" where
  "on_status chk username status_code raw =
     (if py_eq_int status_code 404
      then [Print (Available (profile_url username)), WriteFile username (output_path chk)]
      else if status_code = PNone
      then [Print (UnknownStatus username raw)]
      else [Print (Unavailable (profile_url username) status_code)])"

text \<open>
  The loop of \<open>_check_one\<close>, entered with the attempt counter at \<open>attempt0\<close>; \<open>net n\<close> is
  what the network does with the call of attempt \<open>n\<close>. The result is the effects of the
  task and the exception that leaves \<open>_check_one\<close>, if one does.
\<close>

function check_one_from ::
  "checker \<Rightarrow> client \<Rightarrow> (nat \<Rightarrow> reply) \<Rightarrow> string \<Rightarrow> nat \<Rightarrow> effect list \<times> exn option" where
  "check_one_from chk cl net username attempt0 =
     (let attempt = attempt0 + 1;
          r = fetch_status_code cl (net attempt);
          call = [Acquire, Call cl (profile_url username), Outcome r, Release]
      in case r of
           Inr (status_code, raw) \<Rightarrow> (call @ on_status chk username status_code raw, None)
         | Inl e \<Rightarrow>
             if retryable e then
               if int attempt \<le> retries chk
               then (let rest = check_one_from chk cl net username attempt
                     in (call @ [Sleep (min (2 ^ (attempt - 1)) 10)] @ fst rest, snd rest))
               else (call @ [Print (ErrorLine username e)], None)
             else (call, Some e))"
  by pat_completeness auto
termination
  by (relation "measure (\<lambda>(chk, cl, net, username, attempt0). nat (retries chk - int attempt0))") auto

definition check_one :: "checker \<Rightarrow> client \<Rightarrow> (nat \<Rightarrow> reply) \<Rightarrow> string \<Rightarrow> effect list \<times> exn option" where
  "check_one chk cl net username = check_one_from chk cl net username 0"

text \<open>\<open>self.oxy_user and self.oxy_pass\<close>: both given and neither empty.\<close>

definition credentials :: "checker \<Rightarrow> (string \<times> string) option" where
  "credentials chk =
     (case (oxy_user chk, oxy_pass chk) of
        (Some u, Some p) \<Rightarrow> if u \<noteq> [] \<and> p \<noteq> [] then Some (u, p) else None
      | _ \<Rightarrow> None)"

text \<open>
  \<open>Checker.start\<close> up to \<open>asyncio.gather\<close>: what it prints, the client it constructs (if
  any) and one task per valid username. \<open>net i n\<close> is what the network does with the
  call of attempt \<open>n\<close> of task \<open>i\<close>.
\<close>

record batch =
  messages :: "report list"
  transport :: "client option"
  tasks :: "(effect list \<times> exn option) list"

definition create_tasks ::
  "checker \<Rightarrow> client \<Rightarrow> (nat \<Rightarrow> nat \<Rightarrow> reply) \<Rightarrow> string list \<Rightarrow> (effect list \<times> exn option) list" where
  "create_tasks chk cl net valid_usernames =
     map (\<lambda>(i, u). check_one chk cl (net i) u) (enumerate 0 valid_usernames)"

definition start :: "checker \<Rightarrow> (nat \<Rightarrow> nat \<Rightarrow> reply) \<Rightarrow> batch" where
  "start chk net =
     (let valid_usernames = filter is_valid_instagram_username (to_check chk);
          skipped = filter (\<lambda>u. u \<notin> set valid_usernames) (to_check chk);
          said = (if skipped \<noteq> [] then [Skipping (length skipped)] else [])
      in if valid_usernames = []
         then \<lparr>messages = said @ [NoValid], transport = None, tasks = []\<rparr>
         else case credentials chk of
                Some (u, p) \<Rightarrow>
                  (let cl = OxylabsClient u p (request_timeout chk)
                   in \<lparr>messages = said @ [UsingOxylabs], transport = Some cl,
                       tasks = create_tasks chk cl net valid_usernames\<rparr>)
              | None \<Rightarrow>
                  (let cl = DirectClient (request_timeout chk)
                   in \<lparr>messages = said @ [FallbackDirect], transport = Some cl,
                       tasks = create_tasks chk cl net valid_usernames\<rparr>))"

section \<open>Running the tasks\<close>

text \<open>
  The tasks run on one event loop and interleave where they await. A state of the batch
  is what each task still has to do, the value of the semaphore, and what has been done
  so far, each effect with the index of its task. \<open>step i\<close> lets task \<open>i\<close> do its next
  effect; a task at \<open>Acquire\<close> waits while the semaphore is \<open>0\<close>. A schedule is the list of
  the tasks that move, in order, and every prefix of a schedule is a schedule: a batch
  that is cut short (a task's exception leaving \<open>gather\<close>, an interrupt) stops in a state
  some schedule reaches.
\<close>

record sched =
  pending :: "effect list list"
  sem_value :: int
  history :: "(nat \<times> effect) list"

fun sem_change :: "effect \<Rightarrow> int" where
  "sem_change Acquire = - 1"
| "sem_change Release = 1"
| "sem_change _ = 0"

fun blocked :: "effect \<Rightarrow> int \<Rightarrow> bool" where
  "blocked Acquire v = (v \<le> 0)"
| "blocked _ v = False"

definition step :: "nat \<Rightarrow> sched \<Rightarrow> sched option" where
  "step i s =
     (if i < length (pending s) then
        (case pending s ! i of
           [] \<Rightarrow> None
         | e # es \<Rightarrow>
             if blocked e (sem_value s) then None
             else Some \<lparr>pending = (pending s)[i := es],
                        sem_value = sem_value s + sem_change e,
                        history = history s @ [(i, e)]\<rparr>)
      else None)"

fun run :: "nat list \<Rightarrow> sched \<Rightarrow> sched option" where
  "run [] s = Some s"
| "run (i # schedule) s = (case step i s of None \<Rightarrow> None | Some s' \<Rightarrow> run schedule s')"

definition gather :: "checker \<Rightarrow> batch \<Rightarrow> sched" where
  "gather chk b = \<lparr>pending = map fst (tasks b), sem_value = sem chk, history = []\<rparr>"

section \<open>Input file and entry point\<close>

text \<open>\<open>str.isspace\<close> on the code points below 256, and \<open>str.strip()\<close>.\<close>

definition isspace :: "char \<Rightarrow> bool" where
  "isspace c =
     (let n = (of_char c :: nat)
      in (9 \<le> n \<and> n \<le> 13) \<or> (28 \<le> n \<and> n \<le> 32) \<or> n = 133 \<or> n = 160)"

definition strip :: "string \<Rightarrow> string" where
  "strip s = rev (dropWhile isspace (rev (dropWhile isspace s)))"

text \<open>The loop of \<open>open_file\<close> that keeps the first occurrence of every name.\<close>

fun drop_duplicates :: "string list \<Rightarrow> string set \<Rightarrow> string list \<Rightarrow> string list" where
  "drop_duplicates [] seen result = result"
| "drop_duplicates (name # lines) seen result =
     (if name \<notin> seen
      then drop_duplicates lines (insert name seen) (result @ [name])
      else drop_duplicates lines seen result)"

text \<open>
  \<open>open_file\<close>; \<open>fs path\<close> is the lines of the file at \<open>path\<close>, or \<open>None\<close> when there is no
  such file. The result is what is printed and the list returned.
\<close>

definition open_file :: "(string \<Rightarrow> string list option) \<Rightarrow> string \<Rightarrow> report list \<times> string list" where
  "open_file fs path =
     (case fs path of
        None \<Rightarrow> ([InputNotFound path], [])
      | Some f \<Rightarrow>
          ([], drop_duplicates (map strip (filter (\<lambda>line. strip line \<noteq> []) f)) {} []))"

text \<open>The result of \<open>parse_args\<close>.\<close>

record namespace =
  arg_input :: string
  arg_output :: string
  arg_concurrency :: int
  arg_retries :: int
  arg_timeout :: int
  arg_oxylabs_username :: "string option"
  arg_oxylabs_password :: "string option"

text \<open>\<open>amain\<close>: the checker it builds, and the batch it starts.\<close>

definition amain_checker :: "namespace \<Rightarrow> (string \<Rightarrow> string list option) \<Rightarrow> checker" where
  "amain_checker args fs =
     Checker (snd (open_file fs (arg_input args)))
       (arg_oxylabs_username args) (arg_oxylabs_password args)
       (arg_concurrency args) (arg_retries args) (arg_output args) (arg_timeout args)"

definition amain ::
  "namespace \<Rightarrow> (string \<Rightarrow> string list option) \<Rightarrow> (nat \<Rightarrow> nat \<Rightarrow> reply) \<Rightarrow> nat list \<Rightarrow> sched option" where
  "amain args fs net schedule =
     (let chk = amain_checker args fs in run schedule (gather chk (start chk net)))"

section \<open>Observations\<close>

text \<open>The arguments of the \<open>write_file\<close> calls among some effects, in order.\<close>

fun writes :: "effect list \<Rightarrow> string list" where
  "writes [] = []"
| "writes (WriteFile arg path # es) = arg # writes es"
| "writes (e # es) = writes es"

definition written :: "(nat \<times> effect) list \<Rightarrow> string list" where
  "written h = writes (map snd h)"

text \<open>The content of the file at \<open>path\<close> after the effects, from the content \<open>c\<close>.\<close>

fun file_after :: "effect list \<Rightarrow> string \<Rightarrow> string \<Rightarrow> string" where
  "file_after [] path c = c"
| "file_after (WriteFile arg p # es) path c =
     file_after es path (if p = path then write_file arg c else c)"
| "file_after (e # es) path c = file_after es path c"

text \<open>The reports printed among some effects, in order.\<close>

fun prints :: "effect list \<Rightarrow> report list" where
  "prints [] = []"
| "prints (Print r # es) = r # prints es"
| "prints (e # es) = prints es"

fun is_acquire :: "effect \<Rightarrow> bool" where
  "is_acquire Acquire = True"
| "is_acquire _ = False"

fun is_release :: "effect \<Rightarrow> bool" where
  "is_release Release = True"
| "is_release _ = False"

fun is_call :: "effect \<Rightarrow> bool" where
  "is_call (Call cl url) = True"
| "is_call _ = False"

fun is_outcome :: "effect \<Rightarrow> bool" where
  "is_outcome (Outcome r) = True"
| "is_outcome _ = False"

text \<open>Sleeping, printing and writing: what a task does besides the guarded call.\<close>

fun is_outside :: "effect \<Rightarrow> bool" where
  "is_outside (Sleep d) = True"
| "is_outside (Print r) = True"
| "is_outside (WriteFile arg path) = True"
| "is_outside _ = False"

definition count :: "(effect \<Rightarrow> bool) \<Rightarrow> (nat \<times> effect) list \<Rightarrow> int" where
  "count P h = int (length (filter (\<lambda>(i, e). P e) h))"

definition count_of :: "nat \<Rightarrow> (effect \<Rightarrow> bool) \<Rightarrow> (nat \<times> effect) list \<Rightarrow> int" where
  "count_of i P h = int (length (filter (\<lambda>(j, e). j = i \<and> P e) h))"

text \<open>Calls that have gone out and not come back, and units of the semaphore taken and
  not given back: in all, and by task \<open>i\<close>.\<close>

definition in_flight :: "(nat \<times> effect) list \<Rightarrow> int" where
  "in_flight h = count is_call h - count is_outcome h"

definition units_held :: "(nat \<times> effect) list \<Rightarrow> int" where
  "units_held h = count is_acquire h - count is_release h"

definition units_held_by :: "nat \<Rightarrow> (nat \<times> effect) list \<Rightarrow> int" where
  "units_held_by i h = count_of i is_acquire h - count_of i is_release h"

text \<open>
  Where a task stands with respect to its call: outside, or past \<open>Acquire\<close>, past \<open>Call\<close>,
  past \<open>Outcome\<close>. From \<open>Acquired\<close> to \<open>Returned\<close> it holds a unit of the semaphore.
\<close>

datatype position = Outside | Acquired | Called | Returned

text \<open>
  \<open>follows pos es\<close>: from \<open>pos\<close> on, the effects \<open>es\<close> hold the unit around the call and
  nowhere else. A call is \<open>Acquire\<close>, \<open>Call\<close>, \<open>Outcome\<close>, \<open>Release\<close> in a row; sleeping,
  printing and writing happen outside, and the task ends outside.
\<close>

primrec follows :: "position \<Rightarrow> effect list \<Rightarrow> bool" where
  "follows pos [] = (pos = Outside)"
| "follows pos (e # es) =
     (case e of
        Acquire \<Rightarrow> pos = Outside \<and> follows Acquired es
      | Call cl url \<Rightarrow> pos = Acquired \<and> follows Called es
      | Outcome r \<Rightarrow> pos = Called \<and> follows Returned es
      | Release \<Rightarrow> pos = Returned \<and> follows Outside es
      | Sleep d \<Rightarrow> pos = Outside \<and> follows Outside es
      | Print r \<Rightarrow> pos = Outside \<and> follows Outside es
      | WriteFile arg path \<Rightarrow> pos = Outside \<and> follows Outside es)"

definition unit_only_around_call :: "effect list \<Rightarrow> bool" where
  "unit_only_around_call es = follows Outside es"

text \<open>The position of a task, read off what it has left to do.\<close>

fun position_of :: "effect list \<Rightarrow> position" where
  "position_of (Call cl url # es) = Acquired"
| "position_of (Outcome r # es) = Called"
| "position_of (Release # es) = Returned"
| "position_of es = Outside"

definition holding :: "effect list \<Rightarrow> bool" where
  "holding es = (position_of es \<noteq> Outside)"

definition flying :: "effect list \<Rightarrow> bool" where
  "flying es = (position_of es = Called)"

text \<open>No \<open>write_file\<close> before a status equal to \<open>404\<close> has come back.\<close>

primrec write_after_404 :: "effect list \<Rightarrow> bool" where
  "write_after_404 [] = True"
| "write_after_404 (e # es) =
     (case e of
        Outcome r \<Rightarrow>
          (case r of
             Inr (status_code, raw) \<Rightarrow> py_eq_int status_code 404 \<or> write_after_404 es
           | Inl x \<Rightarrow> write_after_404 es)
      | WriteFile arg path \<Rightarrow> False
      | _ \<Rightarrow> write_after_404 es)"

section \<open>The specification's reading of the relay response\<close>



text \<open>The values of a JSON body that are false.\<close>

definition falsy :: "pyval set" where
  "falsy = {PNone, PBool False, PInt 0, PFloat (Finite 0), PStr [], PList [], PDict []}"



definition body_zero_status_code :: pyval where
  "body_zero_status_code = PDict [(''status_code'', PInt 0), (''status'', PInt 404)]"

definition body_both_fields :: pyval where
  "body_both_fields = PDict [(''status_code'', PInt 200), (''status'', PInt 404)]"

section \<open>What a task that is abandoned should do\<close>

text \<open>One call that raises \<open>e\<close>: the unit is taken, the call goes out, raises, the unit
  is given back.\<close>

definition failed_call :: "client \<Rightarrow> string \<Rightarrow> exn \<Rightarrow> effect list" where
  "failed_call cl username e =
     [Acquire, Call cl (profile_url username), Outcome (Inl e), Release]"

text \<open>The delay the specification gives for the sleep after attempt \<open>n\<close>.\<close>

definition backoff_delay :: "nat \<Rightarrow> int" where
  "backoff_delay n = min (2 ^ (n - 1)) 10"

text \<open>
  With a budget of \<open>R\<close> retries: attempts \<open>1\<close> to \<open>R\<close> fail and are each followed by their
  sleep, attempt \<open>R + 1\<close> fails and is followed by the error line. \<open>errs n\<close> is the
  exception of attempt \<open>n\<close>.
\<close>

definition abandoned :: "client \<Rightarrow> string \<Rightarrow> (nat \<Rightarrow> exn) \<Rightarrow> nat \<Rightarrow> effect list" where
  "abandoned cl username errs R =
     concat (map (\<lambda>n. failed_call cl username (errs n) @ [Sleep (backoff_delay n)]) [1..<Suc R])
     @ failed_call cl username (errs (Suc R))
     @ [Print (ErrorLine username (errs (Suc R)))]"

section \<open>Networks and checkers to evaluate on\<close>

definition always_timeout :: "nat \<Rightarrow> exn" where
  "always_timeout n = TimeoutError ''timed out''"

definition net_raising :: "(nat \<Rightarrow> exn) \<Rightarrow> nat \<Rightarrow> reply" where
  "net_raising errs n = Raise (errs n)"

definition net_status :: "int \<Rightarrow> nat \<Rightarrow> reply" where
  "net_status k n = Response k PNone"

section \<open>Credentials and the choice of transport\<close>

text \<open>A credential is supplied when it is given and not the empty string.\<close>

definition supplied :: "string option \<Rightarrow> bool" where
  "supplied x = (case x of None \<Rightarrow> False | Some s \<Rightarrow> s \<noteq> [])"

text \<open>The two reports that tell which transport was chosen.\<close>

fun is_choice :: "report \<Rightarrow> bool" where
  "is_choice UsingOxylabs = True"
| "is_choice FallbackDirect = True"
| "is_choice _ = False"

text \<open>The same network for every task.\<close>

definition every_task :: "(nat \<Rightarrow> reply) \<Rightarrow> nat \<Rightarrow> nat \<Rightarrow> reply" where
  "every_task net i = net"

section \<open>Invariants of a running batch\<close>

text \<open>Every task is somewhere in the shape of a task that holds the unit only around
  its call.\<close>

definition shaped :: "sched \<Rightarrow> bool" where
  "shaped s = (\<forall>p \<in> set (pending s). follows (position_of p) p)"

text \<open>
  The semaphore of capacity \<open>C\<close> accounts for the tasks: its value and the tasks that
  hold a unit add up to \<open>C\<close>, the history agrees with the positions of the tasks, and a
  task holds one unit when it is inside its call and none otherwise.
\<close>

definition sem_accounts :: "int \<Rightarrow> sched \<Rightarrow> bool" where
  "sem_accounts C s =
     (0 \<le> sem_value s
      \<and> sem_value s + int (length (filter holding (pending s))) = C
      \<and> units_held (history s) = int (length (filter holding (pending s)))
      \<and> in_flight (history s) = int (length (filter flying (pending s)))
      \<and> (\<forall>i < length (pending s).
            units_held_by i (history s) = (if holding (pending s ! i) then 1 else 0)))"

text \<open>All tasks have run to their end.\<close>

definition all_done :: "sched \<Rightarrow> bool" where
  "all_done s = (\<forall>p \<in> set (pending s). p = [])"

text \<open>The effects the tasks still have to do, in all.\<close>

definition remaining :: "sched \<Rightarrow> nat" where
  "remaining s = sum_list (map length (pending s))"

section \<open>A batch to evaluate on\<close>

text \<open>Two valid identifiers and one that is not, one unit in the semaphore, a network
  that answers \<open>404\<close> to every call, and a schedule that runs both tasks to their end.\<close>

definition two_names :: checker where
  "two_names = Checker [''alice'', ''bob!'', ''bob''] None None 1 3 ''hits.txt'' 30"

definition alternating :: "nat list" where
  "alternating = [0, 0, 0, 0, 1, 0, 1, 0, 1, 1, 1, 1]"

definition answers_404 :: "nat \<Rightarrow> nat \<Rightarrow> reply" where
  "answers_404 = every_task (net_status 404)"

definition alternating_end :: sched where
  "alternating_end =
     \<lparr>pending = [[], []], sem_value = 1,
      history =
        [(0, Acquire),
         (0, Call (DirectClient 30) ''https://www.instagram.com/alice/''),
         (0, Outcome (Inr (PInt 404, PNone))), (0, Release), (1, Acquire),
         (0, Print (Available ''https://www.instagram.com/alice/'')),
         (1, Call (DirectClient 30) ''https://www.instagram.com/bob/''),
         (0, WriteFile ''alice'' ''hits.txt''),
         (1, Outcome (Inr (PInt 404, PNone))), (1, Release),
         (1, Print (Available ''https://www.instagram.com/bob/'')),
         (1, WriteFile ''bob'' ''hits.txt'')]\<rparr>"

text \<open>The same batch configured with a concurrency of \<open>0\<close> and \<open>-2\<close> retries.\<close>

definition out_of_range :: checker where
  "out_of_range = Checker [''alice'', ''bob!'', ''bob''] None None 0 (- 2) ''hits.txt'' 30"

section \<open>Invariants of what a batch writes\<close>

text \<open>An effect that is a status equal to \<open>404\<close> coming back.\<close>

definition reports_404 :: "effect \<Rightarrow> bool" where
  "reports_404 e =
     (case e of
        Outcome r \<Rightarrow> (case r of Inr sr \<Rightarrow> py_eq_int (fst sr) 404 | Inl x \<Rightarrow> False)
      | _ \<Rightarrow> False)"

text \<open>The transport has reported a status equal to \<open>404\<close> to task \<open>i\<close>.\<close>

definition has_404 :: "nat \<Rightarrow> (nat \<times> effect) list \<Rightarrow> bool" where
  "has_404 i h = list_ex (\<lambda>(j, e). j = i \<and> reports_404 e) h"

text \<open>An effect of the task that checks \<open>u\<close>: its calls go to the URL of \<open>u\<close>, and what it
  writes is \<open>u\<close>, to the file at \<open>path\<close>.\<close>

definition task_effect :: "string \<Rightarrow> string \<Rightarrow> effect \<Rightarrow> bool" where
  "task_effect u path e =
     (case e of
        Call cl url \<Rightarrow> url = profile_url u
      | WriteFile arg q \<Rightarrow> arg = u \<and> q = path
      | _ \<Rightarrow> True)"

text \<open>Task \<open>i\<close> checks the identifier \<open>us ! i\<close>, in what it has done and in what it has left
  to do.\<close>

definition addressed :: "string list \<Rightarrow> string \<Rightarrow> sched \<Rightarrow> bool" where
  "addressed us path s =
     (length (pending s) = length us
      \<and> (\<forall>i < length us. \<forall>e \<in> set (pending s ! i). task_effect (us ! i) path e)
      \<and> (\<forall>(i, e) \<in> set (history s). i < length us \<and> task_effect (us ! i) path e))"

text \<open>No identifier has been written twice, and a task that has written has no write
  left to do.\<close>

definition writes_once :: "string list \<Rightarrow> sched \<Rightarrow> bool" where
  "writes_once us s =
     ((\<forall>i < length us. writes (pending s ! i) = [] \<or> writes (pending s ! i) = [us ! i])
      \<and> distinct (written (history s))
      \<and> set (written (history s)) \<subseteq> set us
      \<and> (\<forall>i < length us. us ! i \<in> set (written (history s)) \<longrightarrow> writes (pending s ! i) = []))"

text \<open>No task writes before a status equal to \<open>404\<close> has come back to it.\<close>

definition writes_guarded :: "sched \<Rightarrow> bool" where
  "writes_guarded s =
     ((\<forall>i < length (pending s). has_404 i (history s) \<or> write_after_404 (pending s ! i))
      \<and> (\<forall>(i, e) \<in> set (history s). writes [e] \<noteq> [] \<longrightarrow> has_404 i (history s)))"

text \<open>The lines that writing the identifiers \<open>us\<close> appends to a file.\<close>

definition lines_of :: "string list \<Rightarrow> string" where
  "lines_of us = concat (map (\<lambda>u. u @ [CHR 0x0A]) us)"

section \<open>The end-to-end scenario\<close>

text \<open>An input file with the lines \<open>alice\<close>, \<open>alice\<close> and \<open>bob!\<close>, a concurrency of \<open>2\<close>, no
  credentials, and a schedule that runs the one task there is to its end.\<close>

definition scenario_args :: namespace where
  "scenario_args =
     \<lparr>arg_input = ''usernames.txt'', arg_output = ''hits.txt'', arg_concurrency = 2,
      arg_retries = 3, arg_timeout = 30,
      arg_oxylabs_username = None, arg_oxylabs_password = None\<rparr>"

definition scenario_files :: "string \<Rightarrow> string list option" where
  "scenario_files path =
     (if path = ''usernames.txt''
      then Some [''alice'' @ [CHR 0x0A], ''alice'' @ [CHR 0x0A], ''bob!'' @ [CHR 0x0A]]
      else None)"

definition scenario_schedule :: "nat list" where
  "scenario_schedule = [0, 0, 0, 0, 0, 0]"

definition scenario_end :: sched where
  "scenario_end =
     \<lparr>pending = [[]], sem_value = 2,
      history =
        [(0, Acquire),
         (0, Call (DirectClient 30) ''https://www.instagram.com/alice/''),
         (0, Outcome (Inr (PInt 404, PNone))), (0, Release),
         (0, Print (Available ''https://www.instagram.com/alice/'')),
         (0, WriteFile ''alice'' ''hits.txt'')]\<rparr>"

section \<open>The validity predicate\<close>

lemma char_in_range:
  assumes "lo \<le> (of_char c :: nat)" and "(of_char c :: nat) < hi"
  shows "c \<in> set (map char_of [lo..<hi])"
proof -
  have "c = char_of (of_char c :: nat)" by simp
  moreover have "(of_char c :: nat) \<in> set [lo..<hi]" using assms by simp
  ultimately show ?thesis unfolding set_map by (rule image_eqI)
qed

lemma upper_case_letters: "map char_of [65..<91::nat] = ''ABCDEFGHIJKLMNOPQRSTUVWXYZ''"
  by code_simp

lemma lower_case_letters: "map char_of [97..<123::nat] = ''abcdefghijklmnopqrstuvwxyz''"
  by code_simp

lemma decimal_digits: "map char_of [48..<58::nat] = ''0123456789''"
  by code_simp

lemma alphabet_in_class: "c \<in> alphabet \<Longrightarrow> in_class c"
  unfolding alphabet_def in_class_def by auto

lemma in_class_alphabet:
  assumes "in_class c"
  shows "c \<in> alphabet"
proof -
  from assms consider
      "65 \<le> (of_char c :: nat) \<and> (of_char c :: nat) < 91"
    | "97 \<le> (of_char c :: nat) \<and> (of_char c :: nat) < 123"
    | "48 \<le> (of_char c :: nat) \<and> (of_char c :: nat) < 58"
    | "c = CHR ''.''" | "c = CHR ''_''"
    unfolding in_class_def Let_def by fastforce
  then show ?thesis
  proof cases
    case 1
    then have "c \<in> set ''ABCDEFGHIJKLMNOPQRSTUVWXYZ''"
      using char_in_range [of 65 c 91] by (simp only: upper_case_letters)
    then show ?thesis unfolding alphabet_def by auto
  next
    case 2
    then have "c \<in> set ''abcdefghijklmnopqrstuvwxyz''"
      using char_in_range [of 97 c 123] by (simp only: lower_case_letters)
    then show ?thesis unfolding alphabet_def by auto
  next
    case 3
    then have "c \<in> set ''0123456789''"
      using char_in_range [of 48 c 58] by (simp only: decimal_digits)
    then show ?thesis unfolding alphabet_def by auto
  qed (simp_all add: alphabet_def)
qed

lemma fullmatch_plus_iff: "fullmatch_plus cls s \<longleftrightarrow> s \<noteq> [] \<and> (\<forall>c \<in> set s. cls c)"
  by (induction cls s rule: fullmatch_plus.induct) auto

lemma startswith_dot: "startswith s ''.'' \<longleftrightarrow> s \<noteq> [] \<and> hd s = CHR ''.''"
  by (cases s) (auto simp: startswith_def)

lemma endswith_dot: "endswith s ''.'' \<longleftrightarrow> s \<noteq> [] \<and> last s = CHR ''.''"
proof (cases s rule: rev_cases)
  case Nil
  then show ?thesis by (simp add: endswith_def)
next
  case (snoc ys y)
  then show ?thesis by (auto simp: endswith_def)
qed

lemma is_valid_iff:
  "is_valid_instagram_username u \<longleftrightarrow>
     1 \<le> length u \<and> length u \<le> 30 \<and> set u \<subseteq> alphabet
     \<and> hd u \<noteq> CHR ''.'' \<and> last u \<noteq> CHR ''.''"
proof -
  have "(\<forall>c \<in> set u. in_class c) \<longleftrightarrow> set u \<subseteq> alphabet"
    using in_class_alphabet alphabet_in_class by blast
  then show ?thesis
    unfolding is_valid_instagram_username_def fullmatch_plus_iff startswith_dot endswith_dot
    by (cases u) auto
qed

lemmas is_valid_eval =
  is_valid_instagram_username_def in_class_def startswith_def endswith_def

text \<open>
  Claim C7. A string is valid exactly when it has 1 to 30 characters, all of them
  letters, digits, underscores or periods, and neither its first nor its last character
  is a period. So \<open>john_doe\<close> and \<open>a.b.c\<close> are valid, and a string of 31 characters,
  \<open>.leading\<close>, \<open>trailing.\<close>, \<open>bad$char\<close> and the empty string are not.
\<close>

theorem valid_username_characterisation:
  "(is_valid_instagram_username u \<longleftrightarrow>
      1 \<le> length u \<and> length u \<le> 30 \<and> set u \<subseteq> alphabet
      \<and> hd u \<noteq> CHR ''.'' \<and> last u \<noteq> CHR ''.'')
   \<and> is_valid_instagram_username ''john_doe''
   \<and> is_valid_instagram_username ''a.b.c''
   \<and> length ''toolongtoolongtoolongtoolongtoo'' = 31
   \<and> \<not> is_valid_instagram_username ''toolongtoolongtoolongtoolongtoo''
   \<and> \<not> is_valid_instagram_username ''.leading''
   \<and> \<not> is_valid_instagram_username ''trailing.''
   \<and> \<not> is_valid_instagram_username ''bad$char''
   \<and> \<not> is_valid_instagram_username []"
  using is_valid_iff [of u] by (simp add: is_valid_eval)

theorem valid_username_characterisation_witness:
  "is_valid_instagram_username ''a_b.c9''
   \<and> length ''a_b.c9'' = 6 \<and> set ''a_b.c9'' \<subseteq> alphabet
   \<and> hd ''a_b.c9'' \<noteq> CHR ''.'' \<and> last ''a_b.c9'' \<noteq> CHR ''.''"
  using valid_username_characterisation [of "''a_b.c9''"] by (simp add: alphabet_def)

section \<open>The relay transport\<close>

lemma truthy_falsy: "truthy v \<longleftrightarrow> v \<notin> falsy"
  by (cases v rule: truthy.cases) (auto simp: falsy_def)






text \<open>
  Claim C6, as stated, fails: with \<open>status_code\<close> present and equal to \<open>0\<close> and \<open>status\<close>
  equal to \<open>404\<close>, the status returned is \<open>404\<close>, the value of \<open>status\<close>.
\<close>

theorem relay_status_field_counterexample:
  "py_in ''status_code'' body_zero_status_code
   \<and> py_get body_zero_status_code ''status_code'' = PInt 0
   \<and> fetch_status_code (OxylabsClient ''user'' ''pass'' 30) (Response 200 body_zero_status_code)
     = Inr (PInt 404, body_zero_status_code)"
  by (simp add: body_zero_status_code_def oxylabs_result_def oxylabs_status_code_def py_or_def)

text \<open>
  Claim C6, amended. From a resolved mapping the status is the value of \<open>status_code\<close>
  when that field is present and true, and the value of \<open>status\<close> (\<open>None\<close> when there is
  none) when \<open>status_code\<close> is absent or false: \<open>None\<close>, \<open>False\<close>, \<open>0\<close>, \<open>0.0\<close>, an empty
  string, list or mapping.
\<close>

theorem relay_status_field_fallback:
  "oxylabs_status_code (PDict kvs) =
     (case map_of kvs ''status_code'' of
        None \<Rightarrow> py_get (PDict kvs) ''status''
      | Some v \<Rightarrow> if v \<in> falsy then py_get (PDict kvs) ''status'' else v)"
  by (simp add: oxylabs_status_code_def py_or_def truthy_falsy falsy_def split: option.splits)

theorem relay_status_field_fallback_witness:
  "oxylabs_status_code body_both_fields = PInt 200"
  using relay_status_field_fallback [of "[(''status_code'', PInt 200), (''status'', PInt 404)]"]
  by (simp add: body_both_fields_def falsy_def)

section \<open>One check task\<close>

declare check_one_from.simps [simp del]

lemma check_one_from_returns:
  assumes "fetch_status_code cl (net (Suc a)) = Inr (st, raw)"
  shows "check_one_from chk cl net u a =
           ([Acquire, Call cl (profile_url u), Outcome (Inr (st, raw)), Release]
              @ on_status chk u st raw, None)"
  by (subst check_one_from.simps) (simp add: assms Let_def)

lemma check_one_from_retries:
  assumes "fetch_status_code cl (net (Suc a)) = Inl e" "retryable e" "int (Suc a) \<le> retries chk"
  shows "check_one_from chk cl net u a =
           (failed_call cl u e @ [Sleep (backoff_delay (Suc a))]
              @ fst (check_one_from chk cl net u (Suc a)),
            snd (check_one_from chk cl net u (Suc a)))"
  using assms by (subst check_one_from.simps) (simp add: Let_def failed_call_def backoff_delay_def)

lemma check_one_from_gives_up:
  assumes "fetch_status_code cl (net (Suc a)) = Inl e" "retryable e" "\<not> int (Suc a) \<le> retries chk"
  shows "check_one_from chk cl net u a = (failed_call cl u e @ [Print (ErrorLine u e)], None)"
  using assms by (subst check_one_from.simps) (simp add: Let_def failed_call_def)

lemma check_one_from_raises:
  assumes "fetch_status_code cl (net (Suc a)) = Inl e" "\<not> retryable e"
  shows "check_one_from chk cl net u a = (failed_call cl u e, Some e)"
  using assms by (subst check_one_from.simps) (simp add: Let_def failed_call_def)


lemma fetch_net_raising: "fetch_status_code cl (net_raising errs n) = Inl (errs n)"
  by (simp add: net_raising_def)

lemma abandoned_from:
  assumes "\<forall>n. retryable (errs n)" "a \<le> R" "retries chk = int R"
  shows "check_one_from chk cl (net_raising errs) u a =
     (concat (map (\<lambda>n. failed_call cl u (errs n) @ [Sleep (backoff_delay n)]) [Suc a..<Suc R])
     @ failed_call cl u (errs (Suc R))
     @ [Print (ErrorLine u (errs (Suc R)))], None)"
  using assms(2)
proof (induction "R - a" arbitrary: a)
  case 0
  then have "a = R" by simp
  moreover have "\<not> int (Suc R) \<le> retries chk" using assms(3) by simp
  moreover have "retryable (errs (Suc R))" using assms(1) by simp
  ultimately show ?case
    using check_one_from_gives_up
      [where net = "net_raising errs" and a = R and e = "errs (Suc R)" and cl = cl
         and chk = chk and u = u]
    by (simp add: fetch_net_raising)
next
  case (Suc k)
  then have k: "k = R - Suc a" and le: "Suc a \<le> R" by simp_all
  have "int (Suc a) \<le> retries chk" using assms(3) le by simp
  moreover have "retryable (errs (Suc a))" using assms(1) by simp
  ultimately have "check_one_from chk cl (net_raising errs) u a =
           (failed_call cl u (errs (Suc a)) @ [Sleep (backoff_delay (Suc a))]
              @ fst (check_one_from chk cl (net_raising errs) u (Suc a)),
            snd (check_one_from chk cl (net_raising errs) u (Suc a)))"
    using check_one_from_retries
      [where net = "net_raising errs" and a = a and e = "errs (Suc a)" and cl = cl
         and chk = chk and u = u]
    by (simp add: fetch_net_raising)
  moreover have "[Suc a..<Suc R] = Suc a # [Suc (Suc a)..<Suc R]"
    using le by (simp add: upt_conv_Cons)
  ultimately show ?case
    using Suc.hyps(1) [OF k le] by simp
qed

lemma abandoned_check_one:
  assumes "\<forall>n. retryable (errs n)"
  shows "check_one (Checker us ou op c r path t) cl (net_raising errs) u =
           (abandoned cl u errs (nat (max 0 r)), None)"
  using abandoned_from [OF assms, of 0 "nat (max 0 r)" "Checker us ou op c r path t" cl u]
  by (simp add: check_one_def abandoned_def Checker_def)

lemma filter_call_failed: "filter is_call (failed_call cl u e) = [Call cl (profile_url u)]"
  by (simp add: failed_call_def)

lemma count_calls_abandoned: "length (filter is_call (abandoned cl u errs R)) = R + 1"
proof -
  have "length (filter is_call
          (concat (map (\<lambda>n. failed_call cl u (errs n) @ [Sleep (backoff_delay n)]) ns)))
        = length ns" for ns
    by (induction ns) (simp_all add: failed_call_def)
  then show ?thesis by (simp add: abandoned_def failed_call_def)
qed

lemma writes_abandoned: "writes (abandoned cl u errs R) = []"
proof -
  have "writes (xs @ ys) = writes xs @ writes ys" for xs ys
    by (induction xs rule: writes.induct) simp_all
  moreover have "writes
          (concat (map (\<lambda>n. failed_call cl u (errs n) @ [Sleep (backoff_delay n)]) ns)) = []" for ns
    by (induction ns) (simp_all add: failed_call_def)
  ultimately show ?thesis by (simp add: abandoned_def failed_call_def)
qed

lemma prints_abandoned: "prints (abandoned cl u errs R) = [ErrorLine u (errs (Suc R))]"
proof -
  have "prints (xs @ ys) = prints xs @ prints ys" for xs ys
    by (induction xs rule: prints.induct) simp_all
  moreover have "prints
          (concat (map (\<lambda>n. failed_call cl u (errs n) @ [Sleep (backoff_delay n)]) ns)) = []" for ns
    by (induction ns) (simp_all add: failed_call_def)
  ultimately show ?thesis by (simp add: abandoned_def failed_call_def)
qed



lemma error_line_names: "sublist u (render str repr (ErrorLine u e))"
  unfolding render.simps by (rule sublist_appendI)






text \<open>
  Claim C3. When every attempt raises a retryable exception, a checker with a configured
  budget of \<open>r\<close> retries makes exactly \<open>max 0 r + 1\<close> calls and then stops: after the
  failure of attempt \<open>n\<close> it sleeps \<open>min (2 ^ (n - 1)) 10\<close> before attempt \<open>n + 1\<close>, and after
  the failure of the last attempt it prints one error line, which names the identifier;
  it prints nothing else, writes nothing and raises nothing.
\<close>

theorem retry_exhaustion:
  assumes "\<forall>n. retryable (errs n)"
  shows "check_one (Checker us ou op c r path t) cl (net_raising errs) u
           = (abandoned cl u errs (nat (max 0 r)), None)
         \<and> length (filter is_call (abandoned cl u errs (nat (max 0 r)))) = nat (max 0 r) + 1
         \<and> prints (abandoned cl u errs (nat (max 0 r))) = [ErrorLine u (errs (nat (max 0 r) + 1))]
         \<and> sublist u (render str repr (ErrorLine u (errs (nat (max 0 r) + 1))))
         \<and> writes (abandoned cl u errs (nat (max 0 r))) = []"
  using abandoned_check_one [OF assms] count_calls_abandoned prints_abandoned writes_abandoned
    error_line_names
  by simp

lemma abandoned_five_retries:
  "abandoned (DirectClient 30) ''alice'' always_timeout 5 =
     [Acquire, Call (DirectClient 30) ''https://www.instagram.com/alice/'',
        Outcome (Inl (TimeoutError ''timed out'')), Release, Sleep 1,
      Acquire, Call (DirectClient 30) ''https://www.instagram.com/alice/'',
        Outcome (Inl (TimeoutError ''timed out'')), Release, Sleep 2,
      Acquire, Call (DirectClient 30) ''https://www.instagram.com/alice/'',
        Outcome (Inl (TimeoutError ''timed out'')), Release, Sleep 4,
      Acquire, Call (DirectClient 30) ''https://www.instagram.com/alice/'',
        Outcome (Inl (TimeoutError ''timed out'')), Release, Sleep 8,
      Acquire, Call (DirectClient 30) ''https://www.instagram.com/alice/'',
        Outcome (Inl (TimeoutError ''timed out'')), Release, Sleep 10,
      Acquire, Call (DirectClient 30) ''https://www.instagram.com/alice/'',
        Outcome (Inl (TimeoutError ''timed out'')), Release,
      Print (ErrorLine ''alice'' (TimeoutError ''timed out''))]"
  by code_simp

theorem retry_exhaustion_witness:
  "check_one (Checker [''alice''] None None 50 5 ''hits.txt'' 30) (DirectClient 30)
       (net_raising always_timeout) ''alice''
     = ([Acquire, Call (DirectClient 30) ''https://www.instagram.com/alice/'',
        Outcome (Inl (TimeoutError ''timed out'')), Release, Sleep 1,
      Acquire, Call (DirectClient 30) ''https://www.instagram.com/alice/'',
        Outcome (Inl (TimeoutError ''timed out'')), Release, Sleep 2,
      Acquire, Call (DirectClient 30) ''https://www.instagram.com/alice/'',
        Outcome (Inl (TimeoutError ''timed out'')), Release, Sleep 4,
      Acquire, Call (DirectClient 30) ''https://www.instagram.com/alice/'',
        Outcome (Inl (TimeoutError ''timed out'')), Release, Sleep 8,
      Acquire, Call (DirectClient 30) ''https://www.instagram.com/alice/'',
        Outcome (Inl (TimeoutError ''timed out'')), Release, Sleep 10,
      Acquire, Call (DirectClient 30) ''https://www.instagram.com/alice/'',
        Outcome (Inl (TimeoutError ''timed out'')), Release,
      Print (ErrorLine ''alice'' (TimeoutError ''timed out''))], None)"
proof -
  have h: "\<forall>n. retryable (always_timeout n)" by (simp add: always_timeout_def)
  have n: "nat (max 0 5) = 5" by simp
  show ?thesis
    using retry_exhaustion [OF h, of "[''alice'']" None None 50 5 "''hits.txt''" 30
        "DirectClient 30" "''alice''"]
    unfolding n abandoned_five_retries by simp
qed



text \<open>Every trace of the loop is built from four shapes; properties of traces are
  proved shape by shape.\<close>

lemma check_one_from_shape [case_names returns retries gives_up raises]:
  assumes "\<And>a st raw. fetch_status_code cl (net (Suc a)) = Inr (st, raw) \<Longrightarrow>
             Q ([Acquire, Call cl (profile_url u), Outcome (Inr (st, raw)), Release]
                  @ on_status chk u st raw)"
    and "\<And>a e es. fetch_status_code cl (net (Suc a)) = Inl e \<Longrightarrow> retryable e \<Longrightarrow> Q es \<Longrightarrow>
             Q (failed_call cl u e @ [Sleep (backoff_delay (Suc a))] @ es)"
    and "\<And>a e. fetch_status_code cl (net (Suc a)) = Inl e \<Longrightarrow> retryable e \<Longrightarrow>
             Q (failed_call cl u e @ [Print (ErrorLine u e)])"
    and "\<And>a e. fetch_status_code cl (net (Suc a)) = Inl e \<Longrightarrow> \<not> retryable e \<Longrightarrow>
             Q (failed_call cl u e)"
  shows "Q (fst (check_one_from chk cl net u a))"
proof (induction "nat (retries chk - int a)" arbitrary: a rule: less_induct)
  case less
  show ?case
  proof (cases "fetch_status_code cl (net (Suc a))")
    case (Inr sr)
    then obtain st raw where "fetch_status_code cl (net (Suc a)) = Inr (st, raw)"
      by (cases sr) simp
    then show ?thesis
      using check_one_from_returns [of cl net a st raw chk u] assms(1) by simp
  next
    case (Inl e)
    show ?thesis
    proof (cases "retryable e")
      case False
      then show ?thesis
        using Inl check_one_from_raises [where net = net and a = a and cl = cl and e = e and chk = chk and u = u] assms(4) [OF Inl] by simp
    next
      case True
      show ?thesis
      proof (cases "int (Suc a) \<le> retries chk")
        case False
        then show ?thesis
          using Inl True check_one_from_gives_up [where net = net and a = a and cl = cl and e = e and chk = chk and u = u] assms(3) [OF Inl True] by simp
      next
        case le: True
        then have "nat (retries chk - int (Suc a)) < nat (retries chk - int a)" by simp
        then have "Q (fst (check_one_from chk cl net u (Suc a)))" by (rule less)
        then show ?thesis
          using Inl True le check_one_from_retries [where net = net and a = a and cl = cl and e = e and chk = chk and u = u] assms(2) [OF Inl True] by simp
      qed
    qed
  qed
qed

lemma follows_append_call:
  "follows Outside (failed_call cl u e @ es) = follows Outside es"
  by (simp add: failed_call_def)

lemma follows_on_status: "follows Outside (on_status chk u st raw)"
  by (simp add: on_status_def)

lemma check_one_from_follows: "follows Outside (fst (check_one_from chk cl net u a))"
  by (induction rule: check_one_from_shape) (simp_all add: failed_call_def follows_on_status)

lemma check_one_from_calls:
  "\<forall>c url. Call c url \<in> set (fst (check_one_from chk cl net u a)) \<longrightarrow> c = cl \<and> url = profile_url u"
  by (induction rule: check_one_from_shape) (auto simp: failed_call_def on_status_def)

lemma check_one_from_no_choice:
  "\<forall>r. Print r \<in> set (fst (check_one_from chk cl net u a)) \<longrightarrow> \<not> is_choice r"
  by (induction rule: check_one_from_shape) (auto simp: failed_call_def on_status_def)

lemma writes_append: "writes (xs @ ys) = writes xs @ writes ys"
  by (induction xs rule: writes.induct) simp_all

lemma check_one_from_writes:
  "writes (fst (check_one_from chk cl net u a)) = []
   \<or> writes (fst (check_one_from chk cl net u a)) = [u]"
  by (induction rule: check_one_from_shape) (auto simp: failed_call_def on_status_def writes_append)

lemma check_one_from_write_path:
  "\<forall>arg p. WriteFile arg p \<in> set (fst (check_one_from chk cl net u a)) \<longrightarrow> p = output_path chk"
  by (induction rule: check_one_from_shape) (auto simp: failed_call_def on_status_def)

lemma check_one_from_write_after_404:
  "write_after_404 (fst (check_one_from chk cl net u a))"
  by (induction rule: check_one_from_shape) (auto simp: failed_call_def on_status_def)

lemma check_one_from_calls_bound:
  "length (filter is_call (fst (check_one_from chk cl net u a))) \<le> nat (retries chk - int a) + 1"
proof (induction "nat (retries chk - int a)" arbitrary: a rule: less_induct)
  case less
  show ?case
  proof (cases "fetch_status_code cl (net (Suc a))")
    case (Inr sr)
    then obtain st raw where "fetch_status_code cl (net (Suc a)) = Inr (st, raw)"
      by (cases sr) simp
    then show ?thesis
      using check_one_from_returns [of cl net a st raw chk u]
      by (simp add: on_status_def)
  next
    case (Inl e)
    show ?thesis
    proof (cases "retryable e")
      case False
      then show ?thesis
        using Inl check_one_from_raises [where net = net and a = a and cl = cl and e = e and chk = chk and u = u]
        by (simp add: failed_call_def)
    next
      case True
      show ?thesis
      proof (cases "int (Suc a) \<le> retries chk")
        case False
        then show ?thesis
          using Inl True check_one_from_gives_up [where net = net and a = a and cl = cl and e = e and chk = chk and u = u]
          by (simp add: failed_call_def)
      next
        case le: True
        then have "nat (retries chk - int (Suc a)) < nat (retries chk - int a)" by simp
        then have "length (filter is_call (fst (check_one_from chk cl net u (Suc a))))
            \<le> nat (retries chk - int (Suc a)) + 1" by (rule less)
        then show ?thesis
          using Inl True le check_one_from_retries [where net = net and a = a and cl = cl and e = e and chk = chk and u = u]
          by (simp add: failed_call_def)
      qed
    qed
  qed
qed

section \<open>The batch that \<open>start\<close> sets up\<close>

lemma create_tasks_length: "length (create_tasks chk cl net us) = length us"
  by (simp add: create_tasks_def)

lemma create_tasks_nth:
  "i < length us \<Longrightarrow> create_tasks chk cl net us ! i = check_one chk cl (net i) (us ! i)"
  by (simp add: create_tasks_def nth_enumerate_eq)

lemma create_tasks_member:
  assumes "t \<in> set (create_tasks chk cl net us)"
  obtains i where "i < length us" "t = check_one chk cl (net i) (us ! i)"
  using assms create_tasks_nth create_tasks_length by (metis in_set_conv_nth)

lemma credentials_supplied:
  "credentials chk = (if supplied (oxy_user chk) \<and> supplied (oxy_pass chk)
                      then Some (the (oxy_user chk), the (oxy_pass chk)) else None)"
  by (simp add: credentials_def supplied_def split: option.splits)

lemma skipped_all:
  assumes "filter P xs = []"
  shows "filter (\<lambda>u. u \<notin> set (filter P xs)) xs = xs"
  using assms by simp

lemma start_none_valid:
  assumes "filter is_valid_instagram_username (to_check chk) = []"
  shows "start chk net =
           \<lparr>messages = (if to_check chk = [] then [] else [Skipping (length (to_check chk))]) @ [NoValid],
            transport = None, tasks = []\<rparr>"
  using assms by (simp add: start_def Let_def)

lemma start_some_valid:
  assumes "filter is_valid_instagram_username (to_check chk) \<noteq> []"
  shows "start chk net =
     (let valid = filter is_valid_instagram_username (to_check chk);
          skipped = filter (\<lambda>u. u \<notin> set valid) (to_check chk);
          said = (if skipped \<noteq> [] then [Skipping (length skipped)] else []);
          cl = (if supplied (oxy_user chk) \<and> supplied (oxy_pass chk)
                then OxylabsClient (the (oxy_user chk)) (the (oxy_pass chk)) (request_timeout chk)
                else DirectClient (request_timeout chk))
      in \<lparr>messages = said @ [if supplied (oxy_user chk) \<and> supplied (oxy_pass chk)
                              then UsingOxylabs else FallbackDirect],
          transport = Some cl,
          tasks = create_tasks chk cl net valid\<rparr>)"
  using assms by (simp add: start_def Let_def credentials_supplied)

lemma step_Some:
  assumes "step i s = Some s'"
  obtains e es where "i < length (pending s)" "pending s ! i = e # es"
    "\<not> blocked e (sem_value s)"
    "s' = \<lparr>pending = (pending s)[i := es], sem_value = sem_value s + sem_change e,
           history = history s @ [(i, e)]\<rparr>"
  using assms by (auto simp: step_def split: if_splits list.splits)

lemma run_no_tasks:
  assumes "run schedule s = Some s'" "pending s = []"
  shows "schedule = [] \<and> s' = s"
  using assms by (cases schedule) (auto simp: step_def)

text \<open>
  Claim C9. When no identifier of the input passes the validity predicate, \<open>start\<close>
  prints the line that says so, once and last (after the count of skipped identifiers,
  when the input was not empty), constructs no transport and creates no task; so no
  schedule has anything to run, and no call is made.
\<close>

theorem no_valid_identifiers_no_network:
  assumes "filter is_valid_instagram_username (to_check chk) = []"
  shows "start chk net =
           \<lparr>messages = (if to_check chk = [] then [] else [Skipping (length (to_check chk))]) @ [NoValid],
            transport = None, tasks = []\<rparr>
         \<and> (run schedule (gather chk (start chk net)) = Some s \<longrightarrow> schedule = [] \<and> history s = [])"
proof -
  have "pending (gather chk (start chk net)) = []"
    using start_none_valid [OF assms] by (simp add: gather_def)
  then have "run schedule (gather chk (start chk net)) = Some s \<longrightarrow> schedule = [] \<and> history s = []"
    using run_no_tasks [of schedule "gather chk (start chk net)" s] by (auto simp: gather_def)
  then show ?thesis using start_none_valid [OF assms] by simp
qed

theorem no_valid_identifiers_no_network_witness:
  "start (Checker [''bob!'', ''.eve''] None None 50 3 ''hits.txt'' 30) (every_task (net_status 404))
     = \<lparr>messages = [Skipping 2, NoValid], transport = None, tasks = []\<rparr>"
proof -
  have h: "filter is_valid_instagram_username
             (to_check (Checker [''bob!'', ''.eve''] None None 50 3 ''hits.txt'' 30)) = []"
    by (simp add: Checker_def is_valid_eval)
  show ?thesis
    using no_valid_identifiers_no_network [OF h, of "every_task (net_status 404)"]
    by (simp add: Checker_def)
qed

text \<open>
  Claim C8, amended. When at least one identifier is valid, \<open>start\<close> constructs the relay
  transport exactly when a username and a password are both supplied, and the direct
  transport otherwise; it prints the matching report once, before the tasks are created;
  there is one task per valid identifier, every call of every task goes through the
  transport constructed, and no task prints a report of the choice.
\<close>

theorem transport_chosen_once:
  assumes "filter is_valid_instagram_username (to_check chk) \<noteq> []"
  shows "(\<forall>u p. transport (start chk net) = Some (OxylabsClient u p (request_timeout chk))
            \<longleftrightarrow> oxy_user chk = Some u \<and> oxy_pass chk = Some p \<and> u \<noteq> [] \<and> p \<noteq> [])
       \<and> (supplied (oxy_user chk) \<and> supplied (oxy_pass chk)
            \<longrightarrow> filter is_choice (messages (start chk net)) = [UsingOxylabs])
       \<and> (\<not> (supplied (oxy_user chk) \<and> supplied (oxy_pass chk))
            \<longrightarrow> transport (start chk net) = Some (DirectClient (request_timeout chk))
              \<and> filter is_choice (messages (start chk net)) = [FallbackDirect])
       \<and> length (tasks (start chk net)) = length (filter is_valid_instagram_username (to_check chk))
       \<and> (\<forall>t \<in> set (tasks (start chk net)).
            (\<forall>cl url. Call cl url \<in> set (fst t) \<longrightarrow> transport (start chk net) = Some cl)
            \<and> (\<forall>r. Print r \<in> set (fst t) \<longrightarrow> \<not> is_choice r))"
proof -
  note st = start_some_valid [OF assms, of net]
  have a: "\<forall>u p. transport (start chk net) = Some (OxylabsClient u p (request_timeout chk))
            \<longleftrightarrow> oxy_user chk = Some u \<and> oxy_pass chk = Some p \<and> u \<noteq> [] \<and> p \<noteq> []"
    unfolding st by (auto simp: Let_def supplied_def split: option.splits)
  have b: "supplied (oxy_user chk) \<and> supplied (oxy_pass chk)
            \<longrightarrow> filter is_choice (messages (start chk net)) = [UsingOxylabs]"
    unfolding st by (simp add: Let_def)
  have c: "\<not> (supplied (oxy_user chk) \<and> supplied (oxy_pass chk))
            \<longrightarrow> transport (start chk net) = Some (DirectClient (request_timeout chk))
              \<and> filter is_choice (messages (start chk net)) = [FallbackDirect]"
    unfolding st by (simp add: Let_def)
  have d: "length (tasks (start chk net)) = length (filter is_valid_instagram_username (to_check chk))"
    unfolding st by (simp add: Let_def create_tasks_length)
  have e: "\<forall>t \<in> set (tasks (start chk net)).
            (\<forall>cl url. Call cl url \<in> set (fst t) \<longrightarrow> transport (start chk net) = Some cl)
            \<and> (\<forall>r. Print r \<in> set (fst t) \<longrightarrow> \<not> is_choice r)"
  proof
    fix t assume "t \<in> set (tasks (start chk net))"
    then obtain cl where cl: "transport (start chk net) = Some cl"
      and t: "t \<in> set (create_tasks chk cl net (filter is_valid_instagram_username (to_check chk)))"
      unfolding st by (simp add: Let_def)
    from t obtain i where "t = check_one chk cl (net i) (filter is_valid_instagram_username (to_check chk) ! i)"
      by (rule create_tasks_member)
    then show "(\<forall>cl url. Call cl url \<in> set (fst t) \<longrightarrow> transport (start chk net) = Some cl)
            \<and> (\<forall>r. Print r \<in> set (fst t) \<longrightarrow> \<not> is_choice r)"
      using cl check_one_from_calls check_one_from_no_choice unfolding check_one_def by blast
  qed
  show ?thesis using a b c d e by blast
qed

theorem transport_chosen_once_witness:
  "transport (start (Checker [''alice'', ''bob!''] (Some ''user'') (Some ''pass'') 50 3 ''hits.txt'' 30)
       (every_task (net_status 404)))
     = Some (OxylabsClient ''user'' ''pass'' 30)
   \<and> filter is_choice
        (messages (start (Checker [''alice'', ''bob!''] (Some ''user'') (Some ''pass'') 50 3 ''hits.txt'' 30)
           (every_task (net_status 404))))
     = [UsingOxylabs]
   \<and> length (tasks (start (Checker [''alice'', ''bob!''] (Some ''user'') (Some ''pass'') 50 3 ''hits.txt'' 30)
        (every_task (net_status 404)))) = 1"
proof -
  have h: "filter is_valid_instagram_username
             (to_check (Checker [''alice'', ''bob!''] (Some ''user'') (Some ''pass'') 50 3 ''hits.txt'' 30))
           \<noteq> []"
    by (simp add: Checker_def is_valid_eval)
  show ?thesis
    using transport_chosen_once [OF h, of "every_task (net_status 404)"]
    by (simp add: Checker_def supplied_def is_valid_eval)
qed

text \<open>
  Claim C8, as stated, fails: with both credentials supplied and no valid identifier in
  the input, no transport is constructed and the choice is not reported.
\<close>

theorem transport_choice_counterexample:
  "supplied (Some ''user'') \<and> supplied (Some ''pass'')
   \<and> start (Checker [''bob!''] (Some ''user'') (Some ''pass'') 50 3 ''hits.txt'' 30)
       (every_task (net_status 404))
     = \<lparr>messages = [Skipping 1, NoValid], transport = None, tasks = []\<rparr>"
  by (simp add: supplied_def start_def Checker_def is_valid_eval)

section \<open>Schedules and the semaphore\<close>

lemma run_invariant:
  assumes "run schedule s = Some s'" and "I s"
    and "\<And>i s s'. I s \<Longrightarrow> step i s = Some s' \<Longrightarrow> I s'"
  shows "I s'"
  using assms(1,2)
proof (induction schedule arbitrary: s)
  case Nil
  then show ?case by simp
next
  case (Cons i schedule)
  then obtain s1 where s1: "step i s = Some s1" and r: "run schedule s1 = Some s'"
    by (auto split: option.splits)
  have "I s1" using assms(3) [OF Cons.prems(2) s1] .
  then show ?case using Cons.IH [OF r] by simp
qed

lemma run_append:
  "run (xs @ ys) s = (case run xs s of None \<Rightarrow> None | Some s' \<Rightarrow> run ys s')"
  by (induction xs arbitrary: s) (auto split: option.splits)

lemma step_history: "step i s = Some s' \<Longrightarrow> \<exists>e. history s' = history s @ [(i, e)]"
  by (erule step_Some) simp

lemma run_history:
  "run xs s = Some s' \<Longrightarrow> \<exists>h. history s' = history s @ h \<and> length h = length xs"
proof (induction xs arbitrary: s)
  case Nil
  then show ?case by simp
next
  case (Cons i xs)
  then obtain s1 where s1: "step i s = Some s1" and r: "run xs s1 = Some s'"
    by (auto split: option.splits)
  from step_history [OF s1] obtain e where e: "history s1 = history s @ [(i, e)]" ..
  from Cons.IH [OF r] obtain h where "history s' = history s1 @ h" "length h = length xs" by blast
  then have "history s' = history s @ ((i, e) # h) \<and> length ((i, e) # h) = length (i # xs)"
    using e by simp
  then show ?case by blast
qed

lemma run_take:
  assumes "run schedule s0 = Some s" "history s0 = []" "k \<le> length (history s)"
  shows "\<exists>sk. run (take k schedule) s0 = Some sk \<and> history sk = take k (history s)"
proof -
  from run_history [OF assms(1)] assms(2) have len: "length (history s) = length schedule" by auto
  have "run (take k schedule @ drop k schedule) s0 = Some s" using assms(1) by simp
  then obtain sk where sk: "run (take k schedule) s0 = Some sk" and r: "run (drop k schedule) sk = Some s"
    unfolding run_append by (auto split: option.splits)
  from run_history [OF sk] assms(2,3) len have "length (history sk) = k" by auto
  moreover from run_history [OF r] obtain h where "history s = history sk @ h" by blast
  ultimately have "history sk = take k (history s)" by simp
  with sk show ?thesis by blast
qed

lemma follows_position: "follows pos es \<Longrightarrow> position_of es = pos"
  by (cases es rule: position_of.cases) auto

lemma count_snoc: "count P (h @ [(i, e)]) = count P h + (if P e then 1 else 0)"
  by (simp add: count_def)

lemma count_of_snoc:
  "count_of j P (h @ [(i, e)]) = count_of j P h + (if i = j \<and> P e then 1 else 0)"
  by (auto simp: count_of_def)

lemma filter_update_length:
  "i < length xs \<Longrightarrow>
     length (filter P (xs[i := y])) + (if P (xs ! i) then 1 else 0)
       = length (filter P xs) + (if P y then 1 else 0)"
proof (induction xs arbitrary: i)
  case Nil
  then show ?case by simp
next
  case (Cons x xs)
  show ?case
  proof (cases i)
    case 0
    then show ?thesis by simp
  next
    case (Suc j)
    then have "j < length xs" using Cons.prems by simp
    from Cons.IH [OF this] show ?thesis using Suc by simp
  qed
qed

lemma filter_update_count:
  assumes "i < length xs"
  shows "int (length (filter P (xs[i := y])))
       = int (length (filter P xs)) - (if P (xs ! i) then 1 else 0) + (if P y then 1 else 0)"
  using filter_update_length [OF assms, of P y] by (simp split: if_splits)

lemma shaped_step:
  assumes "shaped s" "step i s = Some s'"
  shows "shaped s'"
proof -
  from assms(2) obtain e es where i: "i < length (pending s)" and p: "pending s ! i = e # es"
    and s': "s' = \<lparr>pending = (pending s)[i := es], sem_value = sem_value s + sem_change e,
           history = history s @ [(i, e)]\<rparr>"
    by (rule step_Some)
  have "follows (position_of (e # es)) (e # es)"
    using assms(1) i p unfolding shaped_def by (metis nth_mem)
  then have "\<exists>pos. follows pos es" by (cases e) auto
  then have "follows (position_of es) es" using follows_position by blast
  then show ?thesis
    using assms(1) unfolding shaped_def s' by (auto dest!: set_update_subset_insert [THEN subsetD])
qed

text \<open>What one effect does to the position of its task.\<close>

lemma position_after:
  assumes "follows (position_of (e # es)) (e # es)"
  shows "holding (e # es) = (is_call e \<or> is_outcome e \<or> is_release e)"
    and "holding es = (is_acquire e \<or> is_call e \<or> is_outcome e)"
    and "flying (e # es) = is_outcome e"
    and "flying es = is_call e"
proof -
  show "holding (e # es) = (is_call e \<or> is_outcome e \<or> is_release e)"
    by (cases e) (simp_all add: holding_def)
  show "flying (e # es) = is_outcome e"
    by (cases e) (simp_all add: flying_def)
  have "position_of es =
          (case e of Acquire \<Rightarrow> Acquired | Call cl url \<Rightarrow> Called | Outcome r \<Rightarrow> Returned
           | _ \<Rightarrow> Outside)"
    using assms by (cases e) (auto dest: follows_position)
  then show "holding es = (is_acquire e \<or> is_call e \<or> is_outcome e)" "flying es = is_call e"
    by (cases e; simp add: holding_def flying_def)+
qed

lemma sem_accounts_step:
  assumes "shaped s" "sem_accounts C s" "step i s = Some s'"
  shows "sem_accounts C s'"
proof -
  from assms(3) obtain e es where i: "i < length (pending s)" and p: "pending s ! i = e # es"
    and nb: "\<not> blocked e (sem_value s)"
    and s': "s' = \<lparr>pending = (pending s)[i := es], sem_value = sem_value s + sem_change e,
           history = history s @ [(i, e)]\<rparr>"
    by (rule step_Some)
  have f: "follows (position_of (e # es)) (e # es)"
    using assms(1) i p unfolding shaped_def by (metis nth_mem)
  note pos = position_after [OF f]
  have h: "int (length (filter holding ((pending s)[i := es])))
             = int (length (filter holding (pending s)))
               - (if holding (e # es) then 1 else 0) + (if holding es then 1 else 0)"
    using filter_update_count [OF i, of holding es] p by simp
  have fl: "int (length (filter flying ((pending s)[i := es])))
             = int (length (filter flying (pending s)))
               - (if flying (e # es) then 1 else 0) + (if flying es then 1 else 0)"
    using filter_update_count [OF i, of flying es] p by simp
  have a: "0 \<le> sem_value s'"
    using assms(2) nb unfolding s' sem_accounts_def by (cases e) simp_all
  have b: "sem_value s' + int (length (filter holding (pending s'))) = C"
    using assms(2) h pos unfolding s' sem_accounts_def by (cases e) simp_all
  have c: "units_held (history s') = int (length (filter holding (pending s')))"
    using assms(2) h pos unfolding s' sem_accounts_def units_held_def
    by (cases e) (simp_all add: count_snoc)
  have d: "in_flight (history s') = int (length (filter flying (pending s')))"
    using assms(2) fl pos unfolding s' sem_accounts_def in_flight_def
    by (cases e) (simp_all add: count_snoc)
  have e: "\<forall>j < length (pending s').
            units_held_by j (history s') = (if holding (pending s' ! j) then 1 else 0)"
  proof (intro allI impI)
    fix j assume j: "j < length (pending s')"
    then have j': "j < length (pending s)" unfolding s' by simp
    have old: "units_held_by j (history s) = (if holding (pending s ! j) then 1 else 0)"
      using assms(2) j' unfolding sem_accounts_def by blast
    show "units_held_by j (history s') = (if holding (pending s' ! j) then 1 else 0)"
    proof (cases "j = i")
      case True
      then show ?thesis
        using old p i pos unfolding s' units_held_by_def
        by (cases e) (simp_all add: count_of_snoc)
    next
      case False
      then show ?thesis
        using old unfolding s' units_held_by_def by (simp add: count_of_snoc)
    qed
  qed
  show ?thesis unfolding sem_accounts_def using a b c d e by blast
qed

lemma start_tasks:
  "\<exists>cl. tasks (start chk net)
          = create_tasks chk cl net (filter is_valid_instagram_username (to_check chk))"
proof (cases "filter is_valid_instagram_username (to_check chk) = []")
  case True
  then show ?thesis using start_none_valid [OF True, of net] by (simp add: create_tasks_def)
next
  case False
  then show ?thesis using start_some_valid [OF False, of net] by (auto simp: Let_def)
qed

lemma start_task_cases:
  assumes "t \<in> set (tasks (start chk net))"
  obtains cl i where "i < length (filter is_valid_instagram_username (to_check chk))"
    "t = check_one chk cl (net i) (filter is_valid_instagram_username (to_check chk) ! i)"
  using assms start_tasks [of chk net] create_tasks_member by metis

lemma start_tasks_follow:
  assumes "t \<in> set (tasks (start chk net))"
  shows "follows Outside (fst t)"
  using assms check_one_from_follows by (auto elim!: start_task_cases simp: check_one_def)

lemma gather_shaped: "shaped (gather chk (start chk net))"
  unfolding shaped_def gather_def
  using start_tasks_follow follows_position by fastforce

lemma filter_none: "(\<forall>x \<in> set xs. \<not> P x) \<Longrightarrow> filter P xs = []"
  by (induction xs) auto

lemma gather_sem_accounts:
  assumes "0 \<le> sem chk"
  shows "sem_accounts (sem chk) (gather chk (start chk net))"
proof -
  have o: "\<forall>p \<in> set (map fst (tasks (start chk net))). position_of p = Outside"
    using start_tasks_follow follows_position by fastforce
  then have "filter holding (map fst (tasks (start chk net))) = []"
    "filter flying (map fst (tasks (start chk net))) = []"
    by (auto intro!: filter_none simp: holding_def flying_def)
  moreover have "\<forall>i < length (map fst (tasks (start chk net))).
      \<not> holding (map fst (tasks (start chk net)) ! i)"
    using o unfolding holding_def by (metis nth_mem)
  ultimately show ?thesis
    using assms
    by (simp add: sem_accounts_def gather_def units_held_def in_flight_def units_held_by_def
        count_def count_of_def)
qed

lemma reachable_invariants:
  assumes "run schedule (gather chk (start chk net)) = Some s" "0 \<le> sem chk"
  shows "shaped s \<and> sem_accounts (sem chk) s"
  using assms(1)
proof (rule run_invariant)
  show "shaped (gather chk (start chk net)) \<and> sem_accounts (sem chk) (gather chk (start chk net))"
    using gather_shaped gather_sem_accounts [OF assms(2)] by blast
next
  fix i s s'
  assume "shaped s \<and> sem_accounts (sem chk) s" "step i s = Some s'"
  then show "shaped s' \<and> sem_accounts (sem chk) s'"
    using shaped_step sem_accounts_step by blast
qed

lemma filter_length_mono:
  "(\<And>x. P x \<Longrightarrow> Q x) \<Longrightarrow> length (filter P xs) \<le> length (filter Q xs)"
  by (induction xs) auto

lemma flying_holding: "flying p \<Longrightarrow> holding p"
  by (simp add: flying_def holding_def)

lemma sem_accounts_bounds:
  assumes "sem_accounts C s"
  shows "0 \<le> in_flight (history s)" "in_flight (history s) \<le> units_held (history s)"
    "units_held (history s) \<le> C" "units_held (history s) = C - sem_value s"
proof -
  have "length (filter flying (pending s)) \<le> length (filter holding (pending s))"
    by (rule filter_length_mono) (rule flying_holding)
  then show "in_flight (history s) \<le> units_held (history s)"
    using assms unfolding sem_accounts_def by simp
  show "0 \<le> in_flight (history s)" "units_held (history s) \<le> C"
    "units_held (history s) = C - sem_value s"
    using assms unfolding sem_accounts_def by simp_all
qed

lemma shaped_next:
  assumes "shaped s" "i < length (pending s)" "pending s ! i = e # es"
  shows "holding (pending s ! i) = (is_call e \<or> is_outcome e \<or> is_release e)"
proof -
  have "follows (position_of (e # es)) (e # es)"
    using assms unfolding shaped_def by (metis nth_mem)
  from position_after(1) [OF this] show ?thesis using assms(3) by simp
qed

text \<open>
  Claim C4. In every state a batch can reach, and so at every moment of every run, the
  calls that have gone out and not come back are at most the units of the semaphore
  that are taken, and those are at most the capacity \<open>max 1 c\<close>. Every task takes the
  unit right before its call and gives it back right after the call returns or raises:
  a task that is about to sleep, print, write or acquire holds no unit, and a task
  inside its call holds one.
\<close>

theorem concurrency_bound:
  assumes "run schedule (gather chk (start chk net)) = Some s"
    and "chk = Checker us ou op c r path t"
  shows "(\<forall>k \<le> length (history s).
            0 \<le> in_flight (take k (history s))
            \<and> in_flight (take k (history s)) \<le> units_held (take k (history s))
            \<and> units_held (take k (history s)) \<le> max 1 c)
       \<and> units_held (history s) = max 1 c - sem_value s
       \<and> (\<forall>t \<in> set (tasks (start chk net)). unit_only_around_call (fst t))
       \<and> (\<forall>i < length (pending s).
            (pending s ! i = [] \<longrightarrow> units_held_by i (history s) = 0)
            \<and> (\<forall>e es. pending s ! i = e # es \<longrightarrow>
                  (is_acquire e \<or> is_outside e \<longrightarrow> units_held_by i (history s) = 0)
                  \<and> (is_call e \<or> is_outcome e \<or> is_release e
                       \<longrightarrow> units_held_by i (history s) = 1)))"
proof -
  have sem: "sem chk = max 1 c" "0 \<le> sem chk" using assms(2) by (simp_all add: Checker_def)
  have a: "\<forall>k \<le> length (history s).
            0 \<le> in_flight (take k (history s))
            \<and> in_flight (take k (history s)) \<le> units_held (take k (history s))
            \<and> units_held (take k (history s)) \<le> max 1 c"
  proof (intro allI impI)
    fix k assume k: "k \<le> length (history s)"
    have "history (gather chk (start chk net)) = []" by (simp add: gather_def)
    from run_take [OF assms(1) this k] obtain sk
      where sk: "run (take k schedule) (gather chk (start chk net)) = Some sk"
        and h: "history sk = take k (history s)" by blast
    from reachable_invariants [OF sk sem(2)] have "sem_accounts (max 1 c) sk" using sem(1) by simp
    from sem_accounts_bounds(1-3) [OF this] show
      "0 \<le> in_flight (take k (history s))
            \<and> in_flight (take k (history s)) \<le> units_held (take k (history s))
            \<and> units_held (take k (history s)) \<le> max 1 c"
      unfolding h by blast
  qed
  from reachable_invariants [OF assms(1) sem(2)]
  have sh: "shaped s" and ac: "sem_accounts (max 1 c) s" using sem(1) by simp_all
  have b: "units_held (history s) = max 1 c - sem_value s"
    using sem_accounts_bounds(4) [OF ac] .
  have c: "\<forall>t \<in> set (tasks (start chk net)). unit_only_around_call (fst t)"
    using start_tasks_follow unfolding unit_only_around_call_def by blast
  have d: "\<forall>i < length (pending s).
            (pending s ! i = [] \<longrightarrow> units_held_by i (history s) = 0)
            \<and> (\<forall>e es. pending s ! i = e # es \<longrightarrow>
                  (is_acquire e \<or> is_outside e \<longrightarrow> units_held_by i (history s) = 0)
                  \<and> (is_call e \<or> is_outcome e \<or> is_release e
                       \<longrightarrow> units_held_by i (history s) = 1))"
  proof (intro allI impI conjI)
    fix i assume i: "i < length (pending s)"
    then have u: "units_held_by i (history s) = (if holding (pending s ! i) then 1 else 0)"
      using ac unfolding sem_accounts_def by blast
    {
      assume "pending s ! i = []"
      then show "units_held_by i (history s) = 0" using u by (simp add: holding_def)
    }
    fix e es assume p: "pending s ! i = e # es"
    note h = shaped_next [OF sh i p]
    {
      assume "is_acquire e \<or> is_outside e"
      then have "\<not> (is_call e \<or> is_outcome e \<or> is_release e)" by (cases e) simp_all
      then show "units_held_by i (history s) = 0" using u h by simp
    }
    {
      assume "is_call e \<or> is_outcome e \<or> is_release e"
      then show "units_held_by i (history s) = 1" using u h by simp
    }
  qed
  show ?thesis using a b c d by blast
qed

lemma alternating_run:
  "run alternating (gather two_names (start two_names answers_404)) = Some alternating_end"
  by code_simp

lemma two_names_is_checker:
  "two_names = Checker [''alice'', ''bob!'', ''bob''] None None 1 3 ''hits.txt'' 30"
  by (simp add: two_names_def)

theorem concurrency_bound_witness:
  "in_flight (take 7 (history alternating_end)) \<le> 1
   \<and> units_held (history alternating_end) = 0"
proof -
  have len: "7 \<le> length (history alternating_end)" and sv: "sem_value alternating_end = 1"
    by (simp_all add: alternating_end_def)
  note b = concurrency_bound [OF alternating_run two_names_is_checker]
  from b len have "in_flight (take 7 (history alternating_end)) \<le> max 1 1"
    by (meson order.trans)
  moreover from b have "units_held (history alternating_end) = max 1 1 - sem_value alternating_end"
    by blast
  ultimately show ?thesis by (simp add: sv)
qed

lemma remaining_update:
  "i < length xs \<Longrightarrow> xs ! i = e # es \<Longrightarrow>
     sum_list (map length (xs[i := es])) + 1 = sum_list (map length xs)"
proof (induction xs arbitrary: i)
  case Nil
  then show ?case by simp
next
  case (Cons x xs)
  then show ?case by (cases i) auto
qed

lemma step_remaining:
  assumes "step i s = Some s'"
  shows "remaining s' + 1 = remaining s"
  using assms remaining_update by (auto elim!: step_Some simp: remaining_def)

lemma run_remaining:
  "run schedule s = Some s' \<Longrightarrow> remaining s' + length schedule = remaining s"
proof (induction schedule arbitrary: s)
  case Nil
  then show ?case by simp
next
  case (Cons i schedule)
  then obtain s1 where s1: "step i s = Some s1" and r: "run schedule s1 = Some s'"
    by (auto split: option.splits)
  from Cons.IH [OF r] step_remaining [OF s1] show ?case by simp
qed

lemma progress:
  assumes "shaped s" "sem_accounts C s" "1 \<le> C" "\<not> all_done s"
  shows "\<exists>i s'. step i s = Some s'"
proof (cases "\<exists>j < length (pending s). holding (pending s ! j)")
  case True
  then obtain j where j: "j < length (pending s)" and h: "holding (pending s ! j)" by blast
  then obtain e es where p: "pending s ! j = e # es"
    by (cases "pending s ! j") (simp_all add: holding_def)
  with h have "\<not> is_acquire e" by (cases e) (simp_all add: holding_def)
  then have "\<not> blocked e (sem_value s)" by (cases e) simp_all
  then have "\<exists>s'. step j s = Some s'" using j p by (simp add: step_def)
  then show ?thesis by blast
next
  case False
  then have "filter holding (pending s) = []"
    by (auto intro!: filter_none simp: in_set_conv_nth)
  then have v: "1 \<le> sem_value s" using assms(2,3) unfolding sem_accounts_def by simp
  from assms(4) obtain i where i: "i < length (pending s)" and "pending s ! i \<noteq> []"
    unfolding all_done_def by (auto simp: in_set_conv_nth)
  then obtain e es where p: "pending s ! i = e # es" by (cases "pending s ! i") simp_all
  have "\<not> blocked e (sem_value s)" using v by (cases e) simp_all
  then have "\<exists>s'. step i s = Some s'" using i p by (simp add: step_def)
  then show ?thesis by blast
qed

lemma completion:
  assumes "shaped s" "sem_accounts C s" "1 \<le> C"
  shows "\<exists>rest s'. run rest s = Some s' \<and> all_done s'"
  using assms(1,2)
proof (induction "remaining s" arbitrary: s rule: less_induct)
  case less
  show ?case
  proof (cases "all_done s")
    case True
    then have "run [] s = Some s \<and> all_done s" by simp
    then show ?thesis by blast
  next
    case False
    from progress [OF less.prems assms(3) False] obtain i s1 where s1: "step i s = Some s1"
      by blast
    have "remaining s1 < remaining s" using step_remaining [OF s1] by simp
    moreover have "shaped s1" "sem_accounts C s1"
      using shaped_step [OF less.prems(1) s1] sem_accounts_step [OF less.prems s1] by simp_all
    ultimately obtain rest s' where "run rest s1 = Some s'" "all_done s'"
      using less.hyps by blast
    then have "run (i # rest) s = Some s' \<and> all_done s'" using s1 by simp
    then show ?thesis by blast
  qed
qed

lemma check_one_from_calls_some:
  "1 \<le> length (filter is_call (fst (check_one_from chk cl net u a)))"
  by (induction rule: check_one_from_shape) (simp_all add: failed_call_def)

text \<open>
  Claim C10. The constructor clamps: the semaphore starts at \<open>max 1 c\<close>, which is at least
  \<open>1\<close>, and the retry budget is \<open>max 0 r\<close>, which is at least \<open>0\<close>. So every task makes at
  least one call and at most \<open>max 0 r + 1\<close>, and a batch never gets stuck: in every state
  it can reach, some task can move unless all are done, some schedule runs all tasks to
  their end from there, and every schedule is as long as the effects it has consumed.
\<close>

theorem clamped_configuration:
  assumes "chk = Checker us ou op c r path t"
  shows "sem chk = max 1 c \<and> 1 \<le> sem chk \<and> retries chk = max 0 r \<and> 0 \<le> retries chk
       \<and> (\<forall>t \<in> set (tasks (start chk net)).
            1 \<le> length (filter is_call (fst t))
            \<and> int (length (filter is_call (fst t))) \<le> max 0 r + 1)
       \<and> (run schedule (gather chk (start chk net)) = Some s \<longrightarrow>
            (\<not> all_done s \<longrightarrow> (\<exists>i s'. step i s = Some s'))
            \<and> (\<exists>rest s'. run rest s = Some s' \<and> all_done s')
            \<and> remaining s + length schedule = remaining (gather chk (start chk net)))"
proof -
  have cfg: "sem chk = max 1 c" "1 \<le> sem chk" "retries chk = max 0 r" "0 \<le> retries chk"
    using assms by (simp_all add: Checker_def)
  have calls: "\<forall>t \<in> set (tasks (start chk net)).
            1 \<le> length (filter is_call (fst t))
            \<and> int (length (filter is_call (fst t))) \<le> max 0 r + 1"
  proof
    fix t assume "t \<in> set (tasks (start chk net))"
    then obtain cl i where
      t: "t = check_one chk cl (net i) (filter is_valid_instagram_username (to_check chk) ! i)"
      by (rule start_task_cases)
    have "length (filter is_call (fst t)) \<le> nat (retries chk - int 0) + 1"
      unfolding t check_one_def by (rule check_one_from_calls_bound)
    then have "int (length (filter is_call (fst t))) \<le> max 0 r + 1" using cfg(3) by simp
    moreover have "1 \<le> length (filter is_call (fst t))"
      unfolding t check_one_def by (rule check_one_from_calls_some)
    ultimately show "1 \<le> length (filter is_call (fst t))
            \<and> int (length (filter is_call (fst t))) \<le> max 0 r + 1" by blast
  qed
  have runs: "run schedule (gather chk (start chk net)) = Some s \<longrightarrow>
            (\<not> all_done s \<longrightarrow> (\<exists>i s'. step i s = Some s'))
            \<and> (\<exists>rest s'. run rest s = Some s' \<and> all_done s')
            \<and> remaining s + length schedule = remaining (gather chk (start chk net))"
  proof
    assume r: "run schedule (gather chk (start chk net)) = Some s"
    have "0 \<le> sem chk" using cfg(2) by simp
    from reachable_invariants [OF r this] have sh: "shaped s" and ac: "sem_accounts (sem chk) s"
      by simp_all
    show "(\<not> all_done s \<longrightarrow> (\<exists>i s'. step i s = Some s'))
            \<and> (\<exists>rest s'. run rest s = Some s' \<and> all_done s')
            \<and> remaining s + length schedule = remaining (gather chk (start chk net))"
      using progress [OF sh ac cfg(2)] completion [OF sh ac cfg(2)] run_remaining [OF r]
      by blast
  qed
  show ?thesis using cfg calls runs by blast
qed

lemma out_of_range_is_checker:
  "out_of_range = Checker [''alice'', ''bob!'', ''bob''] None None 0 (- 2) ''hits.txt'' 30"
  by (simp add: out_of_range_def)

lemma out_of_range_run:
  "run alternating (gather out_of_range (start out_of_range answers_404)) = Some alternating_end"
  by code_simp

theorem clamped_configuration_witness:
  "sem out_of_range = 1 \<and> retries out_of_range = 0
   \<and> remaining (gather out_of_range (start out_of_range answers_404)) = 12"
proof -
  have l: "length alternating = 12" by (simp add: alternating_def)
  have z: "remaining alternating_end = 0" by (simp add: remaining_def alternating_end_def)
  note c = clamped_configuration [OF out_of_range_is_checker,
      of answers_404 alternating alternating_end]
  from c have "sem out_of_range = max 1 0" "retries out_of_range = max 0 (- 2)" by blast+
  moreover from c out_of_range_run
  have "remaining alternating_end + length alternating
       = remaining (gather out_of_range (start out_of_range answers_404))" by blast
  ultimately show ?thesis by (simp add: l z)
qed

section \<open>What a batch writes\<close>

lemma drop_duplicates_distinct:
  assumes "distinct result" "seen = set result"
  shows "distinct (drop_duplicates xs seen result)
         \<and> set (drop_duplicates xs seen result) = set result \<union> set xs"
  using assms by (induction xs seen result rule: drop_duplicates.induct) auto

lemma open_file_distinct: "distinct (snd (open_file fs path))"
  using drop_duplicates_distinct [of "[]" "{}"]
  by (simp add: open_file_def split: option.splits)

lemma writes_single: "writes (e # es) = writes [e] @ writes es"
  by (cases e) simp_all

lemma writes_one: "writes [e] = [] \<or> (\<exists>arg q. e = WriteFile arg q)"
  by (cases e) simp_all

lemma written_snoc: "written (h @ [(i, e)]) = written h @ writes [e]"
  by (simp add: written_def writes_append)

lemma written_member:
  "u \<in> set (written h) \<Longrightarrow> \<exists>i q. (i, WriteFile u q) \<in> set h"
proof (induction h)
  case Nil
  then show ?case by (simp add: written_def)
next
  case (Cons x h)
  obtain i e where x: "x = (i, e)" by (cases x)
  show ?case
  proof (cases "u \<in> set (written h)")
    case True
    with Cons.IH show ?thesis by auto
  next
    case False
    with Cons.prems x have "u \<in> set (writes [e])"
      using writes_single [of e "map snd h"] by (simp add: written_def)
    then have "e = WriteFile u (case e of WriteFile a q \<Rightarrow> q)" by (cases e) simp_all
    then show ?thesis using x by (metis list.set_intros(1))
  qed
qed

lemma file_after_writes:
  assumes "\<forall>arg q. WriteFile arg q \<in> set es \<longrightarrow> q = path"
  shows "file_after es path c = c @ lines_of (writes es)"
  using assms
proof (induction es arbitrary: c)
  case Nil
  then show ?case by (simp add: lines_of_def)
next
  case (Cons e es)
  then have ih: "\<And>c. file_after es path c = c @ lines_of (writes es)" by simp
  show ?case
  proof (cases e)
    case (WriteFile arg q)
    then have "q = path" using Cons.prems by simp
    then show ?thesis using WriteFile ih by (simp add: lines_of_def write_file_def)
  qed (simp_all add: ih)
qed

lemma addressed_step:
  assumes "addressed us path s" "step i s = Some s'"
  shows "addressed us path s'"
proof -
  from assms(2) obtain e es where i: "i < length (pending s)" and p: "pending s ! i = e # es"
    and s': "s' = \<lparr>pending = (pending s)[i := es], sem_value = sem_value s + sem_change e,
           history = history s @ [(i, e)]\<rparr>"
    by (rule step_Some)
  have len: "length (pending s) = length us" using assms(1) by (simp add: addressed_def)
  have old: "\<forall>x \<in> set (e # es). task_effect (us ! i) path x"
    using assms(1) i p len unfolding addressed_def by metis
  have a: "\<forall>j < length us. \<forall>x \<in> set (pending s' ! j). task_effect (us ! j) path x"
  proof (intro allI impI)
    fix j assume j: "j < length us"
    show "\<forall>x \<in> set (pending s' ! j). task_effect (us ! j) path x"
    proof (cases "j = i")
      case True
      then show ?thesis using old i unfolding s' by simp
    next
      case False
      then show ?thesis using assms(1) j unfolding s' addressed_def by simp
    qed
  qed
  have b: "\<forall>(j, x) \<in> set (history s'). j < length us \<and> task_effect (us ! j) path x"
    using assms(1) old i len unfolding s' addressed_def by auto
  show ?thesis unfolding addressed_def using a b len by (simp add: s')
qed

lemma writes_once_step:
  assumes "distinct us" "addressed us path s" "writes_once us s" "step i s = Some s'"
  shows "writes_once us s'"
proof -
  from assms(4) obtain e es where i: "i < length (pending s)" and p: "pending s ! i = e # es"
    and s': "s' = \<lparr>pending = (pending s)[i := es], sem_value = sem_value s + sem_change e,
           history = history s @ [(i, e)]\<rparr>"
    by (rule step_Some)
  have len: "length (pending s) = length us" using assms(2) by (simp add: addressed_def)
  then have iu: "i < length us" using i by simp
  have w: "writes [e] @ writes es = [] \<or> writes [e] @ writes es = [us ! i]"
    using assms(3) iu p writes_single [of e es] unfolding writes_once_def by metis
  have h': "written (history s') = written (history s) @ writes [e]"
    unfolding s' by (simp add: written_snoc)
  have pi: "pending s' ! i = es" using i unfolding s' by simp
  have pj: "\<And>j. j \<noteq> i \<Longrightarrow> pending s' ! j = pending s ! j" unfolding s' by simp
  show ?thesis
  proof (cases "writes [e] = []")
    case True
    then have "writes (pending s ! i) = writes es" using p writes_single [of e es] by simp
    then have "\<And>j. writes (pending s' ! j) = writes (pending s ! j)"
      using pi pj by metis
    then show ?thesis using assms(3) True unfolding writes_once_def h' by simp
  next
    case False
    with w have e: "writes [e] = [us ! i]" and es: "writes es = []"
      by (auto simp: append_eq_Cons_conv)
    have new: "us ! i \<notin> set (written (history s))"
    proof
      assume "us ! i \<in> set (written (history s))"
      then have "writes (pending s ! i) = []" using assms(3) iu unfolding writes_once_def by blast
      then show False using p writes_single [of e es] e by simp
    qed
    have a: "\<forall>j < length us. writes (pending s' ! j) = [] \<or> writes (pending s' ! j) = [us ! j]"
      using assms(3) pi pj es unfolding writes_once_def by metis
    have b: "distinct (written (history s'))"
      using assms(3) new unfolding writes_once_def h' e by simp
    have c: "set (written (history s')) \<subseteq> set us"
      using assms(3) iu unfolding writes_once_def h' e by simp
    have d: "\<forall>j < length us. us ! j \<in> set (written (history s')) \<longrightarrow> writes (pending s' ! j) = []"
    proof (intro allI impI)
      fix j assume j: "j < length us" and m: "us ! j \<in> set (written (history s'))"
      show "writes (pending s' ! j) = []"
      proof (cases "j = i")
        case True
        then show ?thesis using pi es by simp
      next
        case False
        then have "us ! j \<noteq> us ! i" using assms(1) j iu by (simp add: nth_eq_iff_index_eq)
        then have "us ! j \<in> set (written (history s))" using m unfolding h' e by simp
        then show ?thesis using assms(3) j pj [OF False] unfolding writes_once_def by simp
      qed
    qed
    show ?thesis unfolding writes_once_def using a b c d by blast
  qed
qed

lemma has_404_snoc: "has_404 j (h @ [(i, e)]) = (has_404 j h \<or> (i = j \<and> reports_404 e))"
  by (auto simp: has_404_def)

lemma write_after_404_tail:
  assumes "write_after_404 (e # es)"
  shows "writes [e] = []" and "reports_404 e \<or> write_after_404 es"
  using assms by (cases e; auto simp: reports_404_def split: sum.splits)+

lemma writes_guarded_step:
  assumes "writes_guarded s" "step i s = Some s'"
  shows "writes_guarded s'"
proof -
  from assms(2) obtain e es where i: "i < length (pending s)" and p: "pending s ! i = e # es"
    and s': "s' = \<lparr>pending = (pending s)[i := es], sem_value = sem_value s + sem_change e,
           history = history s @ [(i, e)]\<rparr>"
    by (rule step_Some)
  have g: "has_404 i (history s) \<or> write_after_404 (e # es)"
    using assms(1) i p unfolding writes_guarded_def by metis
  have a: "\<forall>j < length (pending s'). has_404 j (history s') \<or> write_after_404 (pending s' ! j)"
  proof (intro allI impI)
    fix j assume j: "j < length (pending s')"
    show "has_404 j (history s') \<or> write_after_404 (pending s' ! j)"
    proof (cases "j = i")
      case True
      then show ?thesis
        using g i write_after_404_tail(2) [of e es] unfolding s' by (auto simp: has_404_snoc)
    next
      case False
      then show ?thesis
        using assms(1) j unfolding s' writes_guarded_def by (auto simp: has_404_snoc)
    qed
  qed
  have b: "\<forall>(j, x) \<in> set (history s'). writes [x] \<noteq> [] \<longrightarrow> has_404 j (history s')"
    using assms(1) g write_after_404_tail(1) [of e es] unfolding s' writes_guarded_def
    by (auto simp: has_404_snoc)
  show ?thesis unfolding writes_guarded_def using a b by blast
qed

lemma check_one_from_task_effect:
  "\<forall>e \<in> set (fst (check_one_from chk cl net u a)). task_effect u (output_path chk) e"
  by (induction rule: check_one_from_shape)
     (auto simp: failed_call_def on_status_def task_effect_def)

lemma gather_pending:
  "\<exists>cl. pending (gather chk (start chk net))
          = map fst (create_tasks chk cl net (filter is_valid_instagram_username (to_check chk)))"
  using start_tasks [of chk net] by (auto simp: gather_def)

lemma gather_writes:
  fixes chk net
  defines "us \<equiv> filter is_valid_instagram_username (to_check chk)"
  defines "s0 \<equiv> gather chk (start chk net)"
  shows "addressed us (output_path chk) s0 \<and> writes_once us s0 \<and> writes_guarded s0"
proof -
  from gather_pending [of chk net] obtain cl
    where p: "pending s0 = map fst (create_tasks chk cl net us)"
    unfolding s0_def us_def by blast
  have h: "history s0 = []" unfolding s0_def by (simp add: gather_def)
  have len: "length (pending s0) = length us" unfolding p by (simp add: create_tasks_length)
  have nth: "\<And>i. i < length us \<Longrightarrow> pending s0 ! i = fst (check_one_from chk cl (net i) (us ! i) 0)"
    unfolding p by (simp add: create_tasks_length create_tasks_nth check_one_def)
  have a: "addressed us (output_path chk) s0"
    unfolding addressed_def using len h nth check_one_from_task_effect by simp
  have b: "writes_once us s0"
    unfolding writes_once_def using h nth check_one_from_writes by (simp add: written_def)
  have c: "writes_guarded s0"
    unfolding writes_guarded_def using len h nth check_one_from_write_after_404 by simp
  show ?thesis using a b c by blast
qed

lemma reachable_writes:
  assumes "run schedule (gather chk (start chk net)) = Some s" "distinct (to_check chk)"
  shows "addressed (filter is_valid_instagram_username (to_check chk)) (output_path chk) s
         \<and> writes_once (filter is_valid_instagram_username (to_check chk)) s
         \<and> writes_guarded s"
  using assms(1)
proof (rule run_invariant)
  show "addressed (filter is_valid_instagram_username (to_check chk)) (output_path chk)
          (gather chk (start chk net))
        \<and> writes_once (filter is_valid_instagram_username (to_check chk))
            (gather chk (start chk net))
        \<and> writes_guarded (gather chk (start chk net))"
    by (rule gather_writes)
next
  fix i s s'
  assume "addressed (filter is_valid_instagram_username (to_check chk)) (output_path chk) s
         \<and> writes_once (filter is_valid_instagram_username (to_check chk)) s
         \<and> writes_guarded s" "step i s = Some s'"
  then show "addressed (filter is_valid_instagram_username (to_check chk)) (output_path chk) s'
         \<and> writes_once (filter is_valid_instagram_username (to_check chk)) s'
         \<and> writes_guarded s'"
    using addressed_step writes_once_step [OF distinct_filter [OF assms(2)]] writes_guarded_step
    by blast
qed

lemma amain_checker_fields:
  "to_check (amain_checker args fs) = snd (open_file fs (arg_input args))"
  "output_path (amain_checker args fs) = arg_output args"
  by (simp_all add: amain_checker_def Checker_def)

text \<open>
  Claim C1. Whatever the input file holds, whatever the network answers and however the
  tasks interleave, in every state the batch of \<open>amain\<close> reaches: the identifiers read
  from the file are free of duplicates; no identifier is written twice; every
  identifier written is one of the identifiers read and is valid; it is written by the
  task that checks it, every call of that task went to the URL of that identifier, and
  a status equal to \<open>404\<close> has come back to that task; and the output file is what it was
  before, followed by the identifiers written, one per line.
\<close>

theorem written_identifiers:
  assumes "amain args fs net schedule = Some s"
  shows "distinct (snd (open_file fs (arg_input args)))
       \<and> distinct (written (history s))
       \<and> set (written (history s))
           \<subseteq> {u \<in> set (snd (open_file fs (arg_input args))). is_valid_instagram_username u}
       \<and> (\<forall>u \<in> set (written (history s)).
            \<exists>i < length (filter is_valid_instagram_username (snd (open_file fs (arg_input args)))).
              filter is_valid_instagram_username (snd (open_file fs (arg_input args))) ! i = u
              \<and> (i, WriteFile u (arg_output args)) \<in> set (history s)
              \<and> has_404 i (history s)
              \<and> (\<forall>cl url. (i, Call cl url) \<in> set (history s) \<longrightarrow> url = profile_url u))
       \<and> file_after (map snd (history s)) (arg_output args) content
           = content @ lines_of (written (history s))"
proof -
  define chk where "chk = amain_checker args fs"
  define us where "us = filter is_valid_instagram_username (snd (open_file fs (arg_input args)))"
  have r: "run schedule (gather chk (start chk net)) = Some s"
    using assms unfolding amain_def chk_def by (simp add: Let_def)
  have d: "distinct (to_check chk)"
    unfolding chk_def amain_checker_fields by (rule open_file_distinct)
  from reachable_writes [OF r d]
  have ad: "addressed us (arg_output args) s" and wo: "writes_once us s" and wg: "writes_guarded s"
    unfolding chk_def amain_checker_fields us_def by simp_all
  have a: "distinct (written (history s))" using wo unfolding writes_once_def by blast
  have b: "set (written (history s))
           \<subseteq> {u \<in> set (snd (open_file fs (arg_input args))). is_valid_instagram_username u}"
    using wo unfolding writes_once_def us_def by auto
  have c: "\<forall>u \<in> set (written (history s)). \<exists>i < length us. us ! i = u
              \<and> (i, WriteFile u (arg_output args)) \<in> set (history s)
              \<and> has_404 i (history s)
              \<and> (\<forall>cl url. (i, Call cl url) \<in> set (history s) \<longrightarrow> url = profile_url u)"
  proof
    fix u assume "u \<in> set (written (history s))"
    then obtain i q where m: "(i, WriteFile u q) \<in> set (history s)"
      using written_member by blast
    then have i: "i < length us" and u: "u = us ! i" and q: "q = arg_output args"
      using ad unfolding addressed_def task_effect_def by auto
    have "has_404 i (history s)" using wg m unfolding writes_guarded_def by fastforce
    moreover have "\<forall>cl url. (i, Call cl url) \<in> set (history s) \<longrightarrow> url = profile_url u"
      using ad u unfolding addressed_def task_effect_def by fastforce
    ultimately show "\<exists>i < length us. us ! i = u
              \<and> (i, WriteFile u (arg_output args)) \<in> set (history s)
              \<and> has_404 i (history s)
              \<and> (\<forall>cl url. (i, Call cl url) \<in> set (history s) \<longrightarrow> url = profile_url u)"
      using i u m q by blast
  qed
  have "\<forall>arg q. WriteFile arg q \<in> set (map snd (history s)) \<longrightarrow> q = arg_output args"
    using ad unfolding addressed_def task_effect_def by fastforce
  from file_after_writes [OF this]
  have e: "file_after (map snd (history s)) (arg_output args) content
           = content @ lines_of (written (history s))"
    by (simp add: written_def)
  show ?thesis using open_file_distinct a b c e unfolding us_def by blast
qed

lemma scenario_run:
  "amain scenario_args scenario_files answers_404 scenario_schedule = Some scenario_end"
  by code_simp

theorem written_identifiers_witness:
  "amain scenario_args scenario_files answers_404 scenario_schedule = Some scenario_end
   \<and> snd (open_file scenario_files ''usernames.txt'') = [''alice'', ''bob!'']
   \<and> written (history scenario_end) = [''alice'']
   \<and> file_after (map snd (history scenario_end)) ''hits.txt'' [] = ''alice'' @ [CHR 0x0A]"
proof -
  have o: "arg_output scenario_args = ''hits.txt''" by (simp add: scenario_args_def)
  have w: "written (history scenario_end) = [''alice'']"
    by (simp add: scenario_end_def written_def)
  have i: "snd (open_file scenario_files ''usernames.txt'') = [''alice'', ''bob!'']"
    by code_simp
  from written_identifiers [OF scenario_run, of "[]"]
  have "file_after (map snd (history scenario_end)) (arg_output scenario_args) []
          = [] @ lines_of (written (history scenario_end))" by blast
  then have "file_after (map snd (history scenario_end)) ''hits.txt'' [] = ''alice'' @ [CHR 0x0A]"
    unfolding o w by (simp add: lines_of_def)
  then show ?thesis using scenario_run w i by simp
qed

end
